theory Spec2Isabelle
  imports Complex_Main "HOL-Library.Sublist" "HOL-Library.Log_Nat"
begin

section \<open>Python values and string operations used by the sources\<close>

text \<open>
  A Python \<open>str\<close> is modelled as a HOL \<open>string\<close>, each \<open>char\<close> standing for one code
  point below 256 (the Latin-1 range). The operations below follow Python's \<open>str\<close> methods
  on that range.
\<close>

text \<open>\<open>c.isspace()\<close>: the code points 9-13, 28-32, 133 and 160.\<close>

definition py_isspace :: "char \<Rightarrow> bool" where
  "py_isspace c =
     (let n = (of_char c :: nat)
      in (9 \<le> n \<and> n \<le> 13) \<or> (28 \<le> n \<and> n \<le> 32) \<or> n = 133 \<or> n = 160)"

text \<open>\<open>s.strip()\<close> removes leading and trailing whitespace.\<close>

definition py_strip :: "string \<Rightarrow> string" where
  "py_strip s = rev (dropWhile py_isspace (rev (dropWhile py_isspace s)))"

text \<open>\<open>c.lower()\<close>: A-Z and the Latin-1 capitals 192-222 (without 215) move up by 32.\<close>

definition py_lower_char :: "char \<Rightarrow> char" where
  "py_lower_char c =
     (let n = (of_char c :: nat)
      in if (65 \<le> n \<and> n \<le> 90) \<or> (192 \<le> n \<and> n \<le> 222 \<and> n \<noteq> 215)
         then char_of (n + 32) else c)"

definition py_lower :: "string \<Rightarrow> string" where
  "py_lower s = map py_lower_char s"

text \<open>\<open>s.split(sep)\<close> for a one-character separator: always at least one part.\<close>

fun py_split :: "char \<Rightarrow> string \<Rightarrow> string list" where
  "py_split sep [] = [[]]"
| "py_split sep (c # cs) =
     (if c = sep then [] # py_split sep cs
      else (case py_split sep cs of
              [] \<Rightarrow> [[c]]
            | p # ps \<Rightarrow> (c # p) # ps))"

text \<open>\<open>s.replace(a, b)\<close> for one-character \<open>a\<close> and \<open>b\<close>.\<close>

definition py_replace :: "char \<Rightarrow> char \<Rightarrow> string \<Rightarrow> string" where
  "py_replace a b s = map (\<lambda>c. if c = a then b else c) s"

text \<open>
  The flag test applied to environment variables throughout the sources:
  \<open>(os.getenv(KEY, "") or "").strip().lower() in ("1", "true", "yes", "on")\<close>.
  An unset variable is \<open>None\<close>.
\<close>

definition env_flag_on :: "string option \<Rightarrow> bool" where
  "env_flag_on v =
     (py_lower (py_strip (case v of None \<Rightarrow> [] | Some s \<Rightarrow> s))
        \<in> set [''1'', ''true'', ''yes'', ''on''])"


text \<open>
  Values that cross the JSON boundary (API payloads, values read back from the page):
  \<open>None\<close>, booleans, integers, strings, lists and dictionaries. A dictionary is an
  association list with distinct keys; \<open>d.get(k, default)\<close> is \<open>dict_get\<close>.
  Exceptions carry their message, the \<open>str(e)\<close> of the source. The three
  exceptions that \<open>verify\<close> raises itself have messages outside Latin-1 and stand as
  constructors of their own: \<open>Single_use\<close> for "the instance may run verify() only
  once", \<open>No_email\<close> for "no email given", \<open>Unknown_school\<close> for "unknown school
  id".
\<close>

datatype pyval =
    PNone
  | PBool bool
  | PInt int
  | PStr string
  | PList "pyval list"
  | PDict "(string \<times> pyval) list"

datatype exn =
    PyException string
  | Single_use
  | No_email
  | Unknown_school

definition dict_get :: "(string \<times> pyval) list \<Rightarrow> string \<Rightarrow> pyval \<Rightarrow> pyval" where
  "dict_get d k dflt = (case map_of d k of None \<Rightarrow> dflt | Some v \<Rightarrow> v)"

text \<open>Truth value of a Python value, as \<open>or\<close>, \<open>and\<close> and \<open>if\<close> take it.\<close>

fun py_truthy :: "pyval \<Rightarrow> bool" where
  "py_truthy PNone = False"
| "py_truthy (PBool b) = b"
| "py_truthy (PInt n) = (n \<noteq> 0)"
| "py_truthy (PStr s) = (s \<noteq> [])"
| "py_truthy (PList xs) = (xs \<noteq> [])"
| "py_truthy (PDict d) = (d \<noteq> [])"


section \<open>API client: settings and backoff (sheerid_client.py)\<close>

text \<open>
  Python floats. A finite double stands as its exact value, a rational number; the two
  infinities and NaN stand beside it. \<open>float_lt\<close> and \<open>float_le\<close> are Python's \<open><\<close> and
  \<open><=\<close> on floats (false whenever NaN takes part), and \<open>min(a, b)\<close> is \<open>b\<close> when
  \<open>b < a\<close> and \<open>a\<close> otherwise.
\<close>

datatype pyfloat = Finite rat | Pos_inf | Neg_inf | NaN

fun float_lt :: "pyfloat \<Rightarrow> pyfloat \<Rightarrow> bool" where
  "float_lt (Finite a) (Finite b) = (a < b)"
| "float_lt (Finite a) Pos_inf = True"
| "float_lt Neg_inf (Finite b) = True"
| "float_lt Neg_inf Pos_inf = True"
| "float_lt _ _ = False"

fun float_le :: "pyfloat \<Rightarrow> pyfloat \<Rightarrow> bool" where
  "float_le (Finite a) (Finite b) = (a \<le> b)"
| "float_le NaN _ = False"
| "float_le _ NaN = False"
| "float_le Neg_inf _ = True"
| "float_le _ Pos_inf = True"
| "float_le _ _ = False"

definition py_min :: "pyfloat \<Rightarrow> pyfloat \<Rightarrow> pyfloat" where
  "py_min a b = (if float_lt b a then b else a)"

text \<open>
  Rounding to the nearest integer, ties to the even one; and the double nearest to a
  rational \<open>x \<ge> 1\<close> below the overflow threshold, as IEEE 754 addition and Python's
  \<open>float(int)\<close> round: with \<open>2^e \<le> x < 2^(e+1)\<close> the doubles around \<open>x\<close> are the
  multiples of \<open>2^(e-52)\<close>, and a tie goes to the even multiple.
\<close>

definition round_half_even :: "rat \<Rightarrow> int" where
  "round_half_even y =
     (let f = \<lfloor>y\<rfloor>; r = y - of_int f
      in if r < 1 / 2 then f else if 1 / 2 < r then f + 1
         else if even f then f else f + 1)"

definition nearest_double :: "rat \<Rightarrow> rat" where
  "nearest_double x =
     (let e = bitlen \<lfloor>x\<rfloor> - 1;
          ulp = 2 powi (e - 52)
      in of_int (round_half_even (x / ulp)) * ulp)"

text \<open>
  \<open>float(n)\<close> for an integer \<open>n \<ge> 1\<close>: the nearest double, and \<open>OverflowError\<close> from
  \<open>2^1024 - 2^970\<close> on, where the nearest double would be \<open>2^1024\<close>.
\<close>

definition float_of_int :: "int \<Rightarrow> exn + rat" where
  "float_of_int n =
     (if 2 ^ 1024 - 2 ^ 970 \<le> n then Inl (PyException ''int too large to convert to float'')
      else Inr (nearest_double (of_int n)))"

text \<open>\<open>ClientSettings\<close> is a frozen dataclass; the cap is a float.\<close>

record client_settings =
  timeout_ms :: int
  max_retries :: int
  backoff_cap_sec :: pyfloat

definition default_settings :: client_settings where
  "default_settings = \<lparr> timeout_ms = 20000, max_retries = 1, backoff_cap_sec = Finite 30 \<rparr>"

text \<open>
  \<open>_compute_backoff_sec(attempt)\<close>: \<open>base = 2 ** max(0, attempt)\<close> is an exact integer,
  the jitter is the double drawn by \<open>random.uniform(0, 1)\<close>, passed in here, and the
  result is \<open>min(float(cap), float(base) + float(jitter))\<close>: the conversion of \<open>base\<close>
  may raise, and the sum is a double addition.
\<close>

definition compute_backoff_sec :: "client_settings \<Rightarrow> rat \<Rightarrow> int \<Rightarrow> exn + pyfloat" where
  "compute_backoff_sec st jitter attempt =
     (let base = (2::int) ^ nat (max 0 attempt)
      in case float_of_int base of
           Inl e \<Rightarrow> Inl e
         | Inr b \<Rightarrow> Inr (py_min (backoff_cap_sec st) (Finite (nearest_double (b + jitter)))))"


text \<open>
  The transport (\<open>APIRequestContext.fetch\<close>) either raises or answers with a response;
  reading the response as JSON or as text may raise in turn.
\<close>

record response =
  status :: int
  json_body :: "exn + pyval"
  text_body :: "exn + string"

datatype fetch_outcome = Fetch_raises exn | Fetch_response response

text \<open>
  The local variables of \<open>request_json\<close>, with a log: the calls of the transport, the
  jitters drawn and the delays slept.
\<close>

record req_state =
  last_data :: pyval
  last_status :: int
  last_exc :: "exn option"
  fetches :: nat
  draws :: nat
  sleeps :: "pyfloat list"

definition retry_statuses :: "int set" where
  "retry_statuses = {408, 429, 500, 502, 503, 504}"

text \<open>
  \<open>try: last_data = await resp.json()  except Exception: last_data = {"raw": (await
  resp.text() or "")[:500]}\<close>; an exception of \<open>resp.text()\<close> escapes to the outer
  handler.
\<close>

definition read_body :: "response \<Rightarrow> exn + pyval" where
  "read_body r =
     (case json_body r of
        Inr d \<Rightarrow> Inr d
      | Inl _ \<Rightarrow> (case text_body r of
                    Inl e \<Rightarrow> Inl e
                  | Inr t \<Rightarrow> Inr (PDict [(''raw'', PStr (take 500 t))])))"

text \<open>
  \<open>await asyncio.sleep(self._compute_backoff_sec(attempt))\<close>: \<open>jit k\<close> is the \<open>k\<close>-th
  jitter drawn in the call. Computing the delay may raise (\<open>Some e\<close>); sleeping for a
  delay that is a number returns.
\<close>

definition backoff_sleep ::
  "client_settings \<Rightarrow> (nat \<Rightarrow> rat) \<Rightarrow> int \<Rightarrow> req_state \<Rightarrow> exn option \<times> req_state" where
  "backoff_sleep st jit attempt s =
     (let s1 = s\<lparr>draws := Suc (draws s)\<rparr>
      in case compute_backoff_sec st (jit (draws s)) attempt of
           Inl e \<Rightarrow> (Some e, s1)
         | Inr d \<Rightarrow> (None, s1\<lparr>sleeps := sleeps s1 @ [d]\<rparr>))"

text \<open>
  The \<open>except Exception as e\<close> branch of the loop body: remember the exception, then
  either back off and continue or re-raise. It returns \<open>None\<close> to continue. An exception
  raised by the backoff inside the handler leaves the function.
\<close>

definition on_exception ::
  "client_settings \<Rightarrow> (nat \<Rightarrow> rat) \<Rightarrow> int \<Rightarrow> exn \<Rightarrow> req_state
     \<Rightarrow> (exn + pyval \<times> int) option \<times> req_state" where
  "on_exception st jit attempt e s =
     (let s' = s\<lparr>last_exc := Some e\<rparr>
      in if attempt < max_retries st
         then (case backoff_sleep st jit attempt s' of
                 (Some e', s'') \<Rightarrow> (Some (Inl e'), s'')
               | (None, s'') \<Rightarrow> (None, s''))
         else (Some (Inl e), s'))"

text \<open>
  \<open>for attempt in range(max_retries + 1)\<close>, the list being the attempts still to run;
  the transport is asked for the outcome of its \<open>k\<close>-th call. The backoff before a retry
  on a status is inside the \<open>try\<close>, so what it raises goes to the handler. The code
  after the loop is the empty-list case.
\<close>

fun request_loop ::
  "client_settings \<Rightarrow> (nat \<Rightarrow> rat) \<Rightarrow> (nat \<Rightarrow> fetch_outcome) \<Rightarrow> int list \<Rightarrow> req_state
     \<Rightarrow> (exn + pyval \<times> int) \<times> req_state" where
  "request_loop st jit tr [] s =
     (case last_exc s of
        Some e \<Rightarrow> (Inl e, s)
      | None \<Rightarrow> (Inr (last_data s, last_status s), s))"
| "request_loop st jit tr (attempt # rest) s =
     (let s1 = s\<lparr>fetches := Suc (fetches s)\<rparr>
      in case tr (fetches s) of
           Fetch_raises e \<Rightarrow>
             (case on_exception st jit attempt e s1 of
                (None, s') \<Rightarrow> request_loop st jit tr rest s'
              | (Some out, s') \<Rightarrow> (out, s'))
         | Fetch_response r \<Rightarrow>
             (let s2 = s1\<lparr>last_status := status r\<rparr>
              in case read_body r of
                   Inl e \<Rightarrow>
                     (case on_exception st jit attempt e s2 of
                        (None, s') \<Rightarrow> request_loop st jit tr rest s'
                      | (Some out, s') \<Rightarrow> (out, s'))
                 | Inr d \<Rightarrow>
                     (let s3 = s2\<lparr>last_data := d\<rparr>
                      in if attempt < max_retries st \<and> last_status s3 \<in> retry_statuses
                         then (case backoff_sleep st jit attempt s3 of
                                 (Some e, s4) \<Rightarrow>
                                   (case on_exception st jit attempt e s4 of
                                      (None, s') \<Rightarrow> request_loop st jit tr rest s'
                                    | (Some out, s') \<Rightarrow> (out, s'))
                               | (None, s4) \<Rightarrow> request_loop st jit tr rest s4)
                         else (Inr (last_data s3, last_status s3), s3))))"

definition req_init :: req_state where
  "req_init = \<lparr> last_data = PDict [], last_status = 0, last_exc = None,
                 fetches = 0, draws = 0, sleeps = [] \<rparr>"

definition request_json ::
  "client_settings \<Rightarrow> (nat \<Rightarrow> rat) \<Rightarrow> (nat \<Rightarrow> fetch_outcome)
     \<Rightarrow> (exn + pyval \<times> int) \<times> req_state" where
  "request_json st jit tr = request_loop st jit tr [0 .. max_retries st] req_init"

text \<open>
  What one attempt yields on its own, and whether the loop may retry after it: the
  transport or the body raised, or the status is one of the retry statuses.
\<close>

definition attempt_result :: "fetch_outcome \<Rightarrow> exn + pyval \<times> int" where
  "attempt_result oc =
     (case oc of
        Fetch_raises e \<Rightarrow> Inl e
      | Fetch_response r \<Rightarrow>
          (case read_body r of Inl e \<Rightarrow> Inl e | Inr d \<Rightarrow> Inr (d, status r)))"

definition retry_worthy :: "fetch_outcome \<Rightarrow> bool" where
  "retry_worthy oc =
     (case attempt_result oc of Inl _ \<Rightarrow> True | Inr (_, stc) \<Rightarrow> stc \<in> retry_statuses)"

text \<open>
  Example transports. The first call times out and every later call answers 503 with a
  JSON body. The first call answers 200 with a body that can be read neither as JSON nor
  as text, and every later call answers 200 with a JSON body. Every call answers 503.
  And a jitter source that always draws one half.
\<close>

definition busy_body :: pyval where
  "busy_body = PDict [(''message'', PStr ''busy''), (''retryAfter'', PInt 5)]"

definition flaky_transport :: "nat \<Rightarrow> fetch_outcome" where
  "flaky_transport k =
     (if k = 0 then Fetch_raises (PyException ''timeout'')
      else Fetch_response \<lparr> status = 503, json_body = Inr busy_body, text_body = Inr [] \<rparr>)"

definition unreadable_transport :: "nat \<Rightarrow> fetch_outcome" where
  "unreadable_transport k =
     (if k = 0
      then Fetch_response \<lparr> status = 200, json_body = Inl (PyException ''invalid json''),
                            text_body = Inl (PyException ''response disposed'') \<rparr>
      else Fetch_response \<lparr> status = 200,
                            json_body = Inr (PDict [(''currentStep'', PStr ''pending'')]),
                            text_body = Inr [] \<rparr>)"

definition html_transport :: "nat \<Rightarrow> fetch_outcome" where
  "html_transport k =
     Fetch_response \<lparr> status = 404, json_body = Inl (PyException ''invalid json''),
                       text_body = Inr ''<html>not found</html>'' \<rparr>"

definition half_jitter :: "nat \<Rightarrow> rat" where
  "half_jitter k = 1 / 2"

definition busy_transport :: "nat \<Rightarrow> fetch_outcome" where
  "busy_transport k =
     Fetch_response \<lparr> status = 503, json_body = Inr busy_body, text_body = Inr [] \<rparr>"

definition patient_settings :: client_settings where
  "patient_settings = default_settings\<lparr> max_retries := 1025 \<rparr>"


section \<open>Organization selector: search terms (form_filler.py)\<close>

text \<open>
  The derivation of the candidate search terms at the head of
  \<open>fill_org_and_select_first\<close>, statement by statement.
\<close>

definition org_name_parts :: "string \<Rightarrow> string list" where
  "org_name_parts raw_name =
     filter (\<lambda>p. p \<noteq> []) (map py_strip (py_split (CHR ''-'') raw_name))"

definition search_terms :: "string \<Rightarrow> string list" where
  "search_terms org_name =
     (let raw_name = py_strip org_name;
          t1 = (if CHR ''-'' \<in> set raw_name
                then (let parts = org_name_parts raw_name
                      in if length parts > 1 then [last parts] else [])
                else []);
          clean_name = py_strip (py_replace (CHR ''-'') (CHR '' '') raw_name);
          t2 = (if clean_name \<noteq> [] \<and> clean_name \<notin> set t1 then t1 @ [clean_name] else t1);
          t3 = (if raw_name \<noteq> [] \<and> raw_name \<notin> set t2 then t2 @ [raw_name] else t2)
      in t3)"


text \<open>
  The candidate list as the specification words it, to compare with \<open>search_terms\<close>:
  the trailing segment when the name has more than one non-empty segment, then the name
  with hyphens replaced by spaces, then the name, each taken without surrounding
  whitespace; and a list without its repeated entries.
\<close>

definition ordered_candidates :: "string \<Rightarrow> string list" where
  "ordered_candidates org_name =
     (let name = py_strip org_name;
          segments = filter (\<lambda>p. p \<noteq> []) (map py_strip (py_split (CHR ''-'') name))
      in (if length segments > 1 then [last segments] else [])
         @ [py_strip (py_replace (CHR ''-'') (CHR '' '') name), name])"

fun first_occurrences :: "'a list \<Rightarrow> 'a list" where
  "first_occurrences [] = []"
| "first_occurrences (x # xs) = x # first_occurrences (filter (\<lambda>y. y \<noteq> x) xs)"


section \<open>Organization selector: the page and the protocol (form_filler.py)\<close>

text \<open>
  What a locator read yields: the call raises, no element matches, or the first element's
  attribute, value or text (\<open>None\<close> when it has none).
\<close>

datatype probe = Probe_raises | Probe_absent | Probe_value "string option"

text \<open>
  The actions of the protocol on the page, in the order performed. Sleeps carry their
  length in milliseconds. \<open>U_type\<close> is the \<open>press_sequentially\<close> of a search term,
  \<open>U_force_type\<close> the \<open>type\<close> of the forced-write fallback, \<open>U_js_click\<close> the synthetic
  pointer events dispatched on \<open>document.querySelector(sel)\<close>.
\<close>

datatype ui_event =
    U_wait_selector string
  | U_focus
  | U_fill_empty
  | U_press string
  | U_type string
  | U_force_type string
  | U_sleep nat
  | U_js_click string
  | U_dispatch string
  | U_set_value string
  | U_debug_read

text \<open>
  The page under the protocol: what each read yields and whether an action raises, as
  functions of the actions performed so far. \<open>id_candidates\<close> are the reads of the
  \<open>value\<close> attribute for the seven selectors of \<open>_check_org_id_filled\<close>, in its order;
  \<open>selected_id_attr\<close> is \<open>data-selected-id\<close> of \<open>#sid-college-name\<close>; \<open>selected_card\<close>
  is the text of the selected-organization name card; \<open>hidden_org_id\<close> is the value of
  the first \<open>organizationId\<close> or \<open>schoolId\<close> input; \<open>input_strategies\<close> says, for each
  of the five strategies of \<open>_find_org_combobox_input\<close>, whether it finds a visible
  input; \<open>options_count\<close> is \<open>None\<close> when counting raises.
\<close>

record org_page =
  act_raises :: "ui_event list \<Rightarrow> ui_event \<Rightarrow> bool"
  id_candidates :: "ui_event list \<Rightarrow> probe list"
  selected_id_attr :: "ui_event list \<Rightarrow> probe"
  selected_card :: "ui_event list \<Rightarrow> probe"
  hidden_org_id :: "ui_event list \<Rightarrow> probe"
  input_strategies :: "ui_event list \<Rightarrow> bool list"
  aria_controls :: "ui_event list \<Rightarrow> probe"
  options_count :: "ui_event list \<Rightarrow> nat option"
  js_hit :: "ui_event list \<Rightarrow> string \<Rightarrow> bool"

text \<open>
  \<open>_sleep\<close> returns, and \<open>_safe_focus_input\<close> swallows what its click raises.
\<close>

definition raises :: "org_page \<Rightarrow> ui_event list \<Rightarrow> ui_event \<Rightarrow> bool" where
  "raises pg h a =
     (case a of U_sleep ms \<Rightarrow> False | U_focus \<Rightarrow> False | _ \<Rightarrow> act_raises pg h a)"

text \<open>Awaited actions in a row inside one \<open>try\<close>: the first that raises ends them.\<close>

fun try_seq :: "org_page \<Rightarrow> ui_event list \<Rightarrow> ui_event list \<Rightarrow> bool \<times> ui_event list" where
  "try_seq pg [] h = (False, h)"
| "try_seq pg (a # as) h =
     (if raises pg h a then (True, h @ [a]) else try_seq pg as (h @ [a]))"

text \<open>
  \<open>_check_org_id_filled\<close>: the first candidate whose value is non-empty, non-blank and
  longer than 5 characters, stripped; failing that a non-empty \<open>data-selected-id\<close>.
\<close>

fun first_long_value :: "probe list \<Rightarrow> string option" where
  "first_long_value [] = None"
| "first_long_value (Probe_value (Some val) # ps) =
     (if val \<noteq> [] \<and> py_strip val \<noteq> [] \<and> length val > 5 then Some (py_strip val)
      else first_long_value ps)"
| "first_long_value (p # ps) = first_long_value ps"

definition check_org_id_filled :: "org_page \<Rightarrow> ui_event list \<Rightarrow> string option" where
  "check_org_id_filled pg h =
     (case first_long_value (id_candidates pg h) of
        Some v \<Rightarrow> Some v
      | None \<Rightarrow>
          (case selected_id_attr pg h of
             Probe_value (Some val) \<Rightarrow> if val \<noteq> [] then Some val else None
           | _ \<Rightarrow> None))"

text \<open>
  \<open>_check_org_selected_strict\<close>: the name card with text first, then the hidden id.
  \<open>_is_org_already_selected\<close> reads the same two things and says true for the same pages.
\<close>

datatype org_outcome = Selected_org_container string | Hidden_org_id | Not_selected

definition probe_text :: "probe \<Rightarrow> string" where
  "probe_text p = (case p of Probe_value (Some t) \<Rightarrow> py_strip t | _ \<Rightarrow> [])"

definition check_org_selected_strict :: "org_page \<Rightarrow> ui_event list \<Rightarrow> org_outcome" where
  "check_org_selected_strict pg h =
     (let txt = probe_text (selected_card pg h)
      in if txt \<noteq> [] then Selected_org_container txt
         else (let hid = probe_text (hidden_org_id pg h)
               in if hid \<noteq> [] then Hidden_org_id else Not_selected))"

definition is_org_already_selected :: "org_page \<Rightarrow> ui_event list \<Rightarrow> bool" where
  "is_org_already_selected pg h =
     (probe_text (selected_card pg h) \<noteq> [] \<or> probe_text (hidden_org_id pg h) \<noteq> [])"

text \<open>\<open>_fresh_org_input\<close>: whether one of the five strategies finds the input.\<close>

definition fresh_org_input :: "org_page \<Rightarrow> ui_event list \<Rightarrow> bool" where
  "fresh_org_input pg h = (True \<in> set (take 5 (input_strategies pg h)))"

text \<open>
  The two selection strategies of a round. The keyboard strategy is one \<open>try\<close> around
  arrow-down, a sleep and enter. The pointer strategy dispatches on the first
  \<open>[role='option']\<close> node of the menu and, when there is none or the call raises, on the
  first \<open>div[class*='option']\<close>.
\<close>

definition arrow_down :: ui_event where
  "arrow_down = U_press ''ArrowDown''"

definition role_option_click :: "string \<Rightarrow> ui_event" where
  "role_option_click menu_selector = U_js_click (menu_selector @ '' [role='option']'')"

definition div_option_click :: "string \<Rightarrow> ui_event" where
  "div_option_click menu_selector = U_js_click (menu_selector @ '' div[class*='option']'')"

definition keyboard_strategy :: "org_page \<Rightarrow> ui_event list \<Rightarrow> ui_event list" where
  "keyboard_strategy pg h = snd (try_seq pg [arrow_down, U_sleep 150, U_press ''Enter''] h)"

definition pointer_strategy :: "org_page \<Rightarrow> string \<Rightarrow> ui_event list \<Rightarrow> ui_event list" where
  "pointer_strategy pg menu_selector h =
     (let a = role_option_click menu_selector;
          js_clicked = (\<not> raises pg h a \<and> js_hit pg h (menu_selector @ '' [role='option']''))
      in if js_clicked then h @ [a] else h @ [a, div_option_click menu_selector])"

text \<open>
  The selection rounds \<open>for _ in range(4)\<close>, by the rounds left: keyboard, sleep, check,
  pointer, sleep, check; each check that finds the id breaks the loop.
\<close>

fun select_rounds :: "org_page \<Rightarrow> string \<Rightarrow> nat \<Rightarrow> ui_event list \<Rightarrow> ui_event list" where
  "select_rounds pg menu_selector 0 h = h"
| "select_rounds pg menu_selector (Suc n) h =
     (let h1 = keyboard_strategy pg h @ [U_sleep 250]
      in if check_org_id_filled pg h1 \<noteq> None then h1
         else (let h2 = pointer_strategy pg menu_selector h1 @ [U_sleep 350]
               in if check_org_id_filled pg h2 \<noteq> None then h2
                  else select_rounds pg menu_selector n h2))"

text \<open>The wait for an asynchronous write: up to 8 checks, 0.25 s apart.\<close>

fun poll_id :: "org_page \<Rightarrow> nat \<Rightarrow> ui_event list \<Rightarrow> ui_event list" where
  "poll_id pg 0 h = h"
| "poll_id pg (Suc n) h =
     (if check_org_id_filled pg h \<noteq> None then h else poll_id pg n (h @ [U_sleep 250]))"

text \<open>
  \<open>_force_select_org_by_exact_text\<close>: every step in its own \<open>try\<close>; the result is
  whether the id is there afterwards.
\<close>

definition force_select_org_by_exact_text ::
  "org_page \<Rightarrow> string \<Rightarrow> ui_event list \<Rightarrow> bool \<times> ui_event list" where
  "force_select_org_by_exact_text pg full_text h =
     (if \<not> fresh_org_input pg h then (False, h)
      else (let h1 = h @ [U_focus];
                h2 = snd (try_seq pg [U_fill_empty] h1);
                h3 = snd (try_seq pg [U_press ''Control+A'', U_press ''Backspace''] h2)
                       @ [U_sleep 150];
                h4 = snd (try_seq pg [U_force_type full_text, U_sleep 250, U_press ''Enter''] h3)
                       @ [U_sleep 350];
                h5 = snd (try_seq pg [U_dispatch ''input'', U_dispatch ''change'',
                                      U_dispatch ''blur''] h4)
                       @ [U_sleep 350]
            in (check_org_id_filled pg h5 \<noteq> None, h5)))"

text \<open>
  One pass of the term loop body. \<open>Term_next\<close> is \<open>continue\<close> or falling off the end of
  the body, \<open>Term_done\<close> is \<open>success = True; break\<close>, \<open>Term_raised\<close> is an exception that
  reaches the body's handler.
\<close>

datatype term_result = Term_next | Term_done | Term_raised

definition menu_selector_of :: "probe \<Rightarrow> string" where
  "menu_selector_of p =
     (case p of
        Probe_value (Some menu_id) \<Rightarrow>
          if menu_id \<noteq> [] \<and> py_strip menu_id \<noteq> [] then ''#'' @ py_strip menu_id
          else ''#sid-college-name-menu''
      | _ \<Rightarrow> ''#sid-college-name-menu'')"

definition valid_option_sel :: "string \<Rightarrow> string" where
  "valid_option_sel menu_selector =
     menu_selector @ '' [role='option'], '' @ menu_selector @ '' div[class*='option']''"

text \<open>
  The part of the body after the options have been counted: the rounds and the tab-out
  when there are options, the wait for the id, the strict check, the forced write.
\<close>

definition confirm_selection ::
  "org_page \<Rightarrow> string \<Rightarrow> string \<Rightarrow> string \<Rightarrow> nat \<Rightarrow> ui_event list
     \<Rightarrow> term_result \<times> ui_event list" where
  "confirm_selection pg raw_name term menu_selector count h3 =
     (let h4 = (if count > 0
                then snd (try_seq pg [U_press ''Tab''] (select_rounds pg menu_selector 4 h3))
                else h3);
          h5 = poll_id pg 8 h4
      in case check_org_selected_strict pg h5 of
           Not_selected \<Rightarrow> (Term_next, h5)
         | _ \<Rightarrow>
             if check_org_id_filled pg h5 = None
             then (Term_done,
                   snd (force_select_org_by_exact_text pg
                          (if raw_name \<noteq> [] then raw_name else term) h5))
             else (Term_done, h5))"

definition try_term ::
  "org_page \<Rightarrow> string \<Rightarrow> string \<Rightarrow> ui_event list \<Rightarrow> term_result \<times> ui_event list" where
  "try_term pg raw_name term h =
     (if \<not> fresh_org_input pg h then (Term_next, h)
      else
        (case try_seq pg [U_focus, U_fill_empty, U_press ''Control+A'', U_press ''Backspace'',
                          U_sleep 100, U_type term] h of
           (True, h2) \<Rightarrow> (Term_raised, h2)
         | (False, h2) \<Rightarrow>
             (let menu_selector = menu_selector_of (aria_controls pg h2);
                  wait = U_wait_selector (valid_option_sel menu_selector)
              in if raises pg h2 wait then (Term_next, h2 @ [wait])
                 else
                   (case options_count pg (h2 @ [wait]) of
                      None \<Rightarrow> (Term_raised, h2 @ [wait])
                    | Some count \<Rightarrow>
                        confirm_selection pg raw_name term menu_selector count
                          (h2 @ [wait])))))"

text \<open>
  The loop over the search terms. A term shorter than 2 characters is skipped. After an
  exception of the body the handler presses Escape, outside any \<open>try\<close>: if that raises,
  the exception leaves the function (\<open>True\<close> in the result).
\<close>

fun term_loop ::
  "org_page \<Rightarrow> string \<Rightarrow> string list \<Rightarrow> ui_event list \<Rightarrow> bool \<times> ui_event list" where
  "term_loop pg raw_name [] h = (False, h)"
| "term_loop pg raw_name (term # rest) h =
     (if length term < 2 then term_loop pg raw_name rest h
      else (case try_term pg raw_name term h of
              (Term_done, h') \<Rightarrow> (False, h')
            | (Term_next, h') \<Rightarrow> term_loop pg raw_name rest h'
            | (Term_raised, h') \<Rightarrow>
                if raises pg h' (U_press ''Escape'') then (True, h' @ [U_press ''Escape''])
                else term_loop pg raw_name rest (h' @ [U_press ''Escape''])))"

text \<open>\<open>_wait_any_selector\<close>: the first selector that attaches ends the wait.\<close>

fun wait_any_selector :: "org_page \<Rightarrow> string list \<Rightarrow> ui_event list \<Rightarrow> ui_event list" where
  "wait_any_selector pg [] h = h"
| "wait_any_selector pg (sel # sels) h =
     (if raises pg h (U_wait_selector sel) then wait_any_selector pg sels (h @ [U_wait_selector sel])
      else h @ [U_wait_selector sel])"

text \<open>
  After the loop: the strict check once more and, when nothing is selected, the two
  diagnostic reads and the last resort, the raw name written into the input.
\<close>

definition last_resort :: "org_page \<Rightarrow> string \<Rightarrow> ui_event list \<Rightarrow> ui_event list" where
  "last_resort pg raw_name h2 =
     (case check_org_selected_strict pg h2 of
        Not_selected \<Rightarrow>
          (let h' = h2 @ [U_debug_read, U_debug_read]
           in if raw_name \<noteq> [] \<and> fresh_org_input pg h'
              then snd (try_seq pg [U_set_value raw_name, U_dispatch ''input'',
                                    U_dispatch ''change'', U_dispatch ''blur''] h')
              else h')
      | _ \<Rightarrow> h2)"

text \<open>
  \<open>fill_org_and_select_first\<close>. \<open>org_selectors\<close> are the non-blank selectors configured
  for the organization field and \<open>after_org_ms\<close> the configured delay; the result says
  whether an exception leaves the function, with the actions performed.
\<close>

definition fill_org_and_select_first_on ::
  "org_page \<Rightarrow> string list \<Rightarrow> nat \<Rightarrow> string \<Rightarrow> bool \<times> ui_event list" where
  "fill_org_and_select_first_on pg org_selectors after_org_ms org_name =
     (if is_org_already_selected pg [] then (False, [])
      else
        (let w = U_wait_selector ''#sid-college-name'';
             h1 = (if raises pg [] w then wait_any_selector pg org_selectors [w] else [w])
         in if \<not> fresh_org_input pg h1 then (False, h1)
            else
              (let raw_name = py_strip org_name
               in case term_loop pg raw_name (search_terms org_name) h1 of
                    (True, h2) \<Rightarrow> (True, h2)
                  | (False, h2) \<Rightarrow>
                      (let h3 = last_resort pg raw_name h2
                       in (False, if after_org_ms > 0 then h3 @ [U_sleep after_org_ms]
                                  else h3)))))"

text \<open>The search terms typed into the input, in the order typed.\<close>

fun typed_terms :: "ui_event list \<Rightarrow> string list" where
  "typed_terms [] = []"
| "typed_terms (U_type t # h) = t # typed_terms h"
| "typed_terms (e # h) = typed_terms h"

text \<open>
  The two marks of a round in a log: the arrow-down that opens the keyboard strategy and
  the synthetic click on the first \<open>[role='option']\<close> node that opens the pointer
  strategy.
\<close>

definition round_marks :: "string \<Rightarrow> ui_event list \<Rightarrow> ui_event list" where
  "round_marks menu_selector h =
     filter (\<lambda>e. e = arrow_down \<or> e = role_option_click menu_selector) h"

text \<open>
  A simulated document: nothing raises, the input is found, the menu shows one option,
  there is no name card, and the hidden \<open>organizationId\<close> field holds \<open>idv\<close> once the
  \<open>n\<close>-th synthetic click on the first option has been dispatched.
\<close>

definition clicks_so_far :: "ui_event list \<Rightarrow> nat" where
  "clicks_so_far h = count_list h (role_option_click ''#sid-college-name-menu'')"

definition late_id_page :: "nat \<Rightarrow> string \<Rightarrow> org_page" where
  "late_id_page n idv =
     \<lparr> act_raises = (\<lambda>h a. False),
       id_candidates = (\<lambda>h. [Probe_value (Some (if n \<le> clicks_so_far h then idv else []))]),
       selected_id_attr = (\<lambda>h. Probe_value None),
       selected_card = (\<lambda>h. Probe_absent),
       hidden_org_id = (\<lambda>h. Probe_value (Some (if n \<le> clicks_so_far h then idv else []))),
       input_strategies = (\<lambda>h. [False, False, False, True]),
       aria_controls = (\<lambda>h. Probe_value None),
       options_count = (\<lambda>h. Some 1),
       js_hit = (\<lambda>h sel. True) \<rparr>"

text \<open>One whole round on that document, as logged.\<close>

definition full_round :: "ui_event list" where
  "full_round = [arrow_down, U_sleep 150, U_press ''Enter'', U_sleep 250,
                 role_option_click ''#sid-college-name-menu'', U_sleep 350]"

text \<open>
  Another simulated document: the same, except that the identifier never reaches a hidden
  field. From the \<open>n\<close>-th synthetic click on it is in the \<open>data-selected-id\<close> attribute
  of the input, and there is no \<open>organizationId\<close> or \<open>schoolId\<close> input.
\<close>

definition attr_id_page :: "nat \<Rightarrow> string \<Rightarrow> org_page" where
  "attr_id_page n idv =
     \<lparr> act_raises = (\<lambda>h a. False),
       id_candidates = (\<lambda>h. [Probe_absent, Probe_absent, Probe_absent]),
       selected_id_attr = (\<lambda>h. Probe_value (if n \<le> clicks_so_far h then Some idv else None)),
       selected_card = (\<lambda>h. Probe_absent),
       hidden_org_id = (\<lambda>h. Probe_absent),
       input_strategies = (\<lambda>h. [False, False, False, True]),
       aria_controls = (\<lambda>h. Probe_value None),
       options_count = (\<lambda>h. Some 1),
       js_hit = (\<lambda>h sel. True) \<rparr>"


section \<open>Status poller (sheerid_api_service.py)\<close>

text \<open>
  \<open>SheerIDApiService.precheck\<close>, given what its one \<open>request("GET", ...)\<close> yields:
  an exception passes through, \<open>pre_data.get\<close> raises on a body that is not a
  dictionary, and otherwise the step is \<open>pre_data.get("currentStep",
  "collectStudentPersonalInfo")\<close>.
\<close>

definition svc_precheck :: "(exn + pyval \<times> int) \<Rightarrow> exn + pyval \<times> pyval" where
  "svc_precheck out =
     (case out of
        Inl e \<Rightarrow> Inl e
      | Inr (pre_data, _) \<Rightarrow>
          (case pre_data of
             PDict d \<Rightarrow>
               Inr (dict_get d ''currentStep'' (PStr ''collectStudentPersonalInfo''), pre_data)
           | _ \<Rightarrow> Inl (PyException ''AttributeError'')))"


section \<open>Verification orchestrator (verification_orchestrator.py)\<close>

record profile =
  first_name :: string
  last_name :: string
  email :: string
  birth_date :: string
  school_name :: string
  verification_id :: string

text \<open>
  The dictionary built by \<open>dump_form_ready\<close>, restricted to the four entries the
  orchestrator reads, each with the type \<open>dump_form_ready\<close> gives it: \<open>schoolId\<close> and
  \<open>schoolText\<close> are a string or \<open>None\<close>, \<open>consentChecked\<close> is a boolean or
  \<open>None\<close>, \<open>ariaInvalidCount\<close> is an integer (\<open>-1\<close> when counting failed).
  What the injected dump function hands back is such a dictionary or something that is
  not a dictionary (\<open>None\<close> for one).
\<close>

record snapshot =
  schoolId :: "string option"
  schoolText :: "string option"
  consentChecked :: "bool option"
  ariaInvalidCount :: int

datatype dumpval = No_dict | Dict snapshot

text \<open>
  The calls the orchestrator makes on its collaborators, in the order made. The labels of
  \<open>E_dump_page\<close> are the prefixes passed to \<open>ui_diag.dump_page\<close>, without the
  verification id.
\<close>

datatype event =
    E_precheck
  | E_ensure_browser
  | E_ensure_form
  | E_new_page
  | E_goto
  | E_wait_timeout
  | E_wait_network_idle
  | E_locate_form_frame
  | E_human_delay
  | E_fill_text string string
  | E_fill_org string
  | E_fill_birth_date string
  | E_check_checkboxes
  | E_dump_form_ready
  | E_click_submit
  | E_dump_page string
  | E_page_title
  | E_page_content
  | E_count_iframes
  | E_page_close
  | E_sleep

text \<open>
  The behaviour of the injected dependencies (\<open>VerificationDeps\<close>) and of the page:
  whether a call raises (\<open>Some e\<close>) or returns, and what it returns. A dependency that is
  called several times answers by the number of earlier calls. The two environment
  variables are \<open>ONE_SHEERID_FORCE_UI\<close> and \<open>ONE_SHEERID_DRY_RUN\<close>;
  \<open>dump_form_ready\<close> may be absent (\<open>None\<close>).
\<close>

record world =
  env_force_ui :: "string option"
  env_dry_run :: "string option"
  do_precheck :: "nat \<Rightarrow> exn + (pyval \<times> pyval)"
  ensure_browser :: "exn option"
  ensure_form :: "exn option"
  new_page :: "exn option"
  page_goto :: "exn option"
  page_wait_timeout :: "exn option"
  wait_network_idle_soft :: "nat \<Rightarrow> exn option"
  locate_form_frame :: "exn option"
  human_delay :: "nat \<Rightarrow> exn option"
  fill_text :: "string \<Rightarrow> exn option"
  fill_org_and_select_first :: "exn option"
  fill_birth_date_any :: "exn option"
  check_all_visible_checkboxes :: "nat \<Rightarrow> exn option"
  dump_form_ready :: "(nat \<Rightarrow> exn + dumpval) option"
  click_submit :: "exn option"

text \<open>The messages of the result dictionaries, one constructor per f-string.\<close>

datatype message =
    Msg_precheck_step pyval
  | Msg_goto_failed exn
  | Msg_locate_failed exn
  | Msg_dry_run
  | Msg_pre_submit_failed bool bool bool "string option" "string option" "bool option" int
  | Msg_error_after_submit
  | Msg_error_after_submit_detail pyval
  | Msg_not_advanced
  | Msg_submitted pyval
  | Msg_exception exn

text \<open>
  The result dictionary: \<open>form_values\<close> and \<open>status\<close> are \<open>None\<close> where the
  dictionary has no such key. The page's url, title and html head, which the two
  force-ui failure results also carry, are left out.
\<close>

record result =
  success :: bool
  message :: message
  form_values :: "dumpval option"
  status_info :: "pyval option"

definition initial_step :: pyval where
  "initial_step = PStr ''collectStudentPersonalInfo''"

text \<open>
  Whether a call raises. \<open>ui_diag.dump_page\<close> catches everything itself; the page
  reads of the failure paths and \<open>page.close()\<close> are each wrapped in \<open>try/except\<close>,
  and \<open>asyncio.sleep\<close> returns.
\<close>

fun outcome :: "world \<Rightarrow> event list \<Rightarrow> event \<Rightarrow> exn option" where
  "outcome w tr E_ensure_browser = ensure_browser w"
| "outcome w tr E_ensure_form = ensure_form w"
| "outcome w tr E_new_page = new_page w"
| "outcome w tr E_goto = page_goto w"
| "outcome w tr E_wait_timeout = page_wait_timeout w"
| "outcome w tr E_wait_network_idle = wait_network_idle_soft w (count_list tr E_wait_network_idle)"
| "outcome w tr E_locate_form_frame = locate_form_frame w"
| "outcome w tr E_human_delay = human_delay w (count_list tr E_human_delay)"
| "outcome w tr (E_fill_text k v) = fill_text w k"
| "outcome w tr (E_fill_org n) = fill_org_and_select_first w"
| "outcome w tr (E_fill_birth_date d) = fill_birth_date_any w"
| "outcome w tr E_check_checkboxes =
     check_all_visible_checkboxes w (count_list tr E_check_checkboxes)"
| "outcome w tr E_click_submit = click_submit w"
| "outcome w tr _ = None"

text \<open>A run of awaited calls: the first one that raises ends it.\<close>

fun do_seq :: "world \<Rightarrow> event list \<Rightarrow> event list \<Rightarrow> exn option \<times> event list" where
  "do_seq w [] tr = (None, tr)"
| "do_seq w (ev # evs) tr =
     (case outcome w tr ev of
        Some e \<Rightarrow> (Some e, tr @ [ev])
      | None \<Rightarrow> do_seq w evs (tr @ [ev]))"

text \<open>
  The outermost \<open>except Exception as e\<close>: \<open>dump_page\<close> does nothing while \<open>page\<close> is
  still \<open>None\<close>.
\<close>

definition unhandled :: "bool \<Rightarrow> exn \<Rightarrow> event list \<Rightarrow> result \<times> event list" where
  "unhandled has_page e tr =
     (\<lparr> success = False, message = Msg_exception e, form_values = None, status_info = None \<rparr>,
      if has_page then tr @ [E_dump_page ''unhandled_exception''] else tr)"

text \<open>
  From \<open>ensure_browser\<close> to \<open>locate_form_frame\<close>. \<open>Inl\<close> is a run that ends here,
  \<open>Inr\<close> carries on.
\<close>

definition open_page ::
  "world \<Rightarrow> pyval \<Rightarrow> pyval \<Rightarrow> event list \<Rightarrow> (result \<times> event list) + event list" where
  "open_page w current_step pre_status tr =
     (let force_ui = env_flag_on (env_force_ui w);
          diag = Some (PDict [(''precheckCurrentStep'', current_step),
                              (''precheck'', pre_status)])
      in case do_seq w [E_ensure_browser, E_ensure_form, E_new_page] tr of
           (Some e, tr1) \<Rightarrow> Inl (unhandled False e tr1)
         | (None, tr1) \<Rightarrow>
             (case do_seq w [E_goto, E_wait_timeout] tr1 of
                (Some e, tr2) \<Rightarrow>
                  if \<not> force_ui then Inl (unhandled True e tr2)
                  else Inl (\<lparr> success = False, message = Msg_goto_failed e,
                              form_values = None, status_info = diag \<rparr>,
                            tr2 @ [E_page_title, E_page_content,
                                   E_dump_page ''goto_failed'', E_page_close])
              | (None, tr2) \<Rightarrow>
                  (case do_seq w [E_wait_network_idle] tr2 of
                     (Some e, tr3) \<Rightarrow> Inl (unhandled True e tr3)
                   | (None, tr3) \<Rightarrow>
                       (case do_seq w [E_locate_form_frame] tr3 of
                          (Some e, tr4) \<Rightarrow>
                            (let tr5 = tr4 @ [E_dump_page ''locate_form_frame_failed'']
                             in if \<not> force_ui then Inl (unhandled True e tr5)
                                else Inl (\<lparr> success = False, message = Msg_locate_failed e,
                                            form_values = None, status_info = diag \<rparr>,
                                          tr5 @ [E_page_title, E_page_content,
                                                 E_count_iframes, E_page_close]))
                        | (None, tr4) \<Rightarrow> Inr tr4))))"

text \<open>
  The field sequence: three text fields whose exceptions escape, then the organization,
  the birth date and the checkboxes, each in its own \<open>try/except\<close>.
\<close>

definition fill_form :: "world \<Rightarrow> profile \<Rightarrow> event list \<Rightarrow> (result \<times> event list) + event list" where
  "fill_form w p tr =
     (case do_seq w [E_human_delay, E_fill_text ''first_name'' (first_name p),
                     E_human_delay, E_fill_text ''last_name'' (last_name p),
                     E_human_delay, E_fill_text ''email'' (email p)] tr of
        (Some e, tr1) \<Rightarrow> Inl (unhandled True e tr1)
      | (None, tr1) \<Rightarrow>
          (let tr2 = (case do_seq w [E_human_delay, E_fill_org (school_name p)] tr1 of
                        (Some e, t) \<Rightarrow> t @ [E_dump_page ''fill_org_exception'']
                      | (None, t) \<Rightarrow> t);
               tr3 = snd (do_seq w [E_human_delay, E_fill_birth_date (birth_date p)] tr2);
               tr4 = snd (do_seq w [E_human_delay, E_check_checkboxes] tr3)
           in Inr tr4))"

text \<open>
  \<open>data = await deps.dump_form_ready(frame)\<close> when the dependency is there, else
  \<open>None\<close>; \<open>None\<close> as well when it raises.
\<close>

definition first_dump :: "world \<Rightarrow> event list \<Rightarrow> dumpval \<times> event list" where
  "first_dump w tr =
     (case dump_form_ready w of
        None \<Rightarrow> (No_dict, tr)
      | Some dump \<Rightarrow>
          (case dump (count_list tr E_dump_form_ready) of
             Inl e \<Rightarrow> (No_dict, tr @ [E_dump_form_ready])
           | Inr d \<Rightarrow> (d, tr @ [E_dump_form_ready])))"

text \<open>
  The run up to the submit gate: precheck and its decision, the page, the fields, the
  snapshot, the dry-run exit. \<open>Inr (data, tr)\<close> reaches the gate with \<open>data\<close>.
\<close>

definition before_gate ::
  "world \<Rightarrow> profile \<Rightarrow> (result \<times> event list) + (dumpval \<times> event list)" where
  "before_gate w p =
     (case do_precheck w 0 of
        Inl e \<Rightarrow> Inl (unhandled False e [E_precheck])
      | Inr (current_step, pre_status) \<Rightarrow>
          (let force_ui = env_flag_on (env_force_ui w)
           in if current_step \<noteq> initial_step \<and> \<not> force_ui
              then Inl (\<lparr> success = (current_step \<noteq> PStr ''error''),
                          message = Msg_precheck_step current_step,
                          form_values = None,
                          status_info = Some (PDict [(''currentStep'', current_step),
                                                     (''precheck'', pre_status)]) \<rparr>,
                        [E_precheck])
              else (case open_page w current_step pre_status [E_precheck] of
                      Inl r \<Rightarrow> Inl r
                    | Inr tr1 \<Rightarrow>
                        (case fill_form w p tr1 of
                           Inl r \<Rightarrow> Inl r
                         | Inr tr2 \<Rightarrow>
                             (let (data, tr3) = first_dump w tr2
                              in if env_flag_on (env_dry_run w)
                                 then Inl (\<lparr> success = True, message = Msg_dry_run,
                                             form_values = Some data,
                                             status_info =
                                               Some (PDict [(''currentStep'', initial_step),
                                                            (''precheckCurrentStep'', current_step),
                                                            (''precheck'', pre_status)]) \<rparr>,
                                           tr3 @ [E_dump_page ''dry_run'', E_page_close])
                                 else Inr (data, tr3))))))"

text \<open>The three tests of the gate on the local variables read from the snapshot.\<close>

definition or_empty :: "string option \<Rightarrow> string" where
  "or_empty x = (case x of None \<Rightarrow> [] | Some s \<Rightarrow> s)"

definition school_ok :: "snapshot \<Rightarrow> bool" where
  "school_ok v =
     (let school_id_s = py_strip (or_empty (schoolId v));
          school_text_s = py_strip (or_empty (schoolText v))
      in school_id_s \<noteq> [] \<or> school_text_s \<noteq> [])"

definition str_of_consent :: "bool option \<Rightarrow> string" where
  "str_of_consent c =
     (case c of None \<Rightarrow> ''None'' | Some True \<Rightarrow> ''True'' | Some False \<Rightarrow> ''False'')"

text \<open>
  \<open>(consent_val is True) or (str(consent_val).lower() == "true") or (consent_val == 1)\<close>;
  of the values a boolean or \<open>None\<close> can take, only \<open>True\<close> equals 1.
\<close>

definition consent_ok :: "snapshot \<Rightarrow> bool" where
  "consent_ok v =
     (let consent_val = consentChecked v
      in consent_val = Some True
         \<or> py_lower (str_of_consent consent_val) = ''true''
         \<or> (case consent_val of Some b \<Rightarrow> b | None \<Rightarrow> False))"

text \<open>\<open>int(invalid_count or 0)\<close> on an integer does not raise.\<close>

definition aria_ok :: "snapshot \<Rightarrow> bool" where
  "aria_ok v =
     (let aria_invalid = (if ariaInvalidCount v \<noteq> 0 then ariaInvalidCount v else 0)
      in aria_invalid = 0)"

text \<open>
  The remediation pass taken when \<open>consent_checked is not True\<close>, all inside one
  \<open>try/except: pass\<close>. It yields the new \<open>data\<close>, the local variables and the log. When
  the second dump is not a dictionary, \<open>data\<close> is already overwritten when \<open>data.get\<close>
  raises, and the local variables keep their values.
\<close>

definition remediate :: "world \<Rightarrow> event list \<Rightarrow> snapshot \<Rightarrow> dumpval \<times> snapshot \<times> event list" where
  "remediate w tr v =
     (case do_seq w [E_human_delay, E_check_checkboxes] tr of
        (Some e, tr1) \<Rightarrow> (Dict v, v, tr1)
      | (None, tr1) \<Rightarrow>
          (case dump_form_ready w of
             None \<Rightarrow> (Dict v, v, tr1)
           | Some dump \<Rightarrow>
               (case dump (count_list tr1 E_dump_form_ready) of
                  Inl e \<Rightarrow> (Dict v, v, tr1 @ [E_dump_form_ready])
                | Inr No_dict \<Rightarrow> (No_dict, v, tr1 @ [E_dump_form_ready])
                | Inr (Dict v') \<Rightarrow> (Dict v', v', tr1 @ [E_dump_form_ready]))))"

definition judged :: "world \<Rightarrow> event list \<Rightarrow> snapshot \<Rightarrow> dumpval \<times> snapshot \<times> event list" where
  "judged w tr v0 =
     (if consentChecked v0 \<noteq> Some True then remediate w tr v0 else (Dict v0, v0, tr))"

text \<open>
  The gate. It is skipped when \<open>data\<close> is not a dictionary. When the tests fail the page
  is dumped and the failure result is built from \<open>data.get(...)\<close>; if \<open>data\<close> is no
  longer a dictionary that raises, the outer \<open>except Exception: pass\<close> swallows it and
  the run goes on to submit.
\<close>

definition gate_ok :: "snapshot \<Rightarrow> bool" where
  "gate_ok v = (school_ok v \<and> consent_ok v \<and> aria_ok v)"

datatype gate_outcome = Gate_abort result | Gate_proceed

definition submit_gate :: "world \<Rightarrow> event list \<Rightarrow> dumpval \<Rightarrow> gate_outcome \<times> event list" where
  "submit_gate w tr data =
     (case data of
        No_dict \<Rightarrow> (Gate_proceed, tr)
      | Dict v0 \<Rightarrow>
          (let (data1, v, tr1) = judged w tr v0
           in if \<not> gate_ok v
              then (let tr2 = tr1 @ [E_dump_page ''pre_submit_validation_failed'']
                    in case data1 of
                         No_dict \<Rightarrow> (Gate_proceed, tr2)
                       | Dict d \<Rightarrow>
                           (Gate_abort
                              \<lparr> success = False,
                                message = Msg_pre_submit_failed (school_ok v) (consent_ok v)
                                            (aria_ok v) (schoolId d) (schoolText d)
                                            (consentChecked d) (ariaInvalidCount d),
                                form_values = Some data1,
                                status_info = Some (PDict [(''currentStep'', initial_step)]) \<rparr>,
                            tr2))
              else (Gate_proceed, tr1)))"

text \<open>
  The polling loop \<open>for _ in range(6)\<close>, by the iterations left; it carries
  \<open>last_step\<close> and \<open>last_status\<close>. The soft wait is inside \<open>try/except: pass\<close>.
\<close>

fun poll ::
  "world \<Rightarrow> nat \<Rightarrow> event list \<Rightarrow> pyval \<times> pyval \<Rightarrow> (exn + pyval \<times> pyval) \<times> event list" where
  "poll w 0 tr prev = (Inr prev, tr)"
| "poll w (Suc n) tr prev =
     (case do_precheck w (count_list tr E_precheck) of
        Inl e \<Rightarrow> (Inl e, tr @ [E_precheck])
      | Inr (current_step2, status2) \<Rightarrow>
          (if current_step2 \<noteq> initial_step
           then (Inr (current_step2, status2), tr @ [E_precheck])
           else poll w n (snd (do_seq w [E_wait_network_idle] (tr @ [E_precheck])) @ [E_sleep])
                  (current_step2, status2)))"

text \<open>Submit, the dump after it, the polling and the three final results.\<close>

definition submit_and_poll :: "world \<Rightarrow> event list \<Rightarrow> result \<times> event list" where
  "submit_and_poll w tr =
     (case do_seq w [E_human_delay, E_click_submit, E_wait_network_idle] tr of
        (Some e, tr1) \<Rightarrow> unhandled True e tr1
      | (None, tr1) \<Rightarrow>
          (case poll w 6 (tr1 @ [E_dump_page ''after_submit'', E_page_title])
                  (PNone, PDict []) of
             (Inl e, tr2) \<Rightarrow> unhandled True e tr2
           | (Inr (current_step2, status2), tr2) \<Rightarrow>
               if current_step2 = PStr ''error''
               then (\<lparr> success = False, message = Msg_error_after_submit,
                       form_values = None, status_info = Some status2 \<rparr>,
                     tr2 @ [E_dump_page ''after_submit_error''])
               else if current_step2 = initial_step
               then (\<lparr> success = False, message = Msg_not_advanced,
                       form_values = None, status_info = Some status2 \<rparr>,
                     tr2 @ [E_dump_page ''step_not_advanced''])
               else (\<lparr> success = True, message = Msg_submitted current_step2,
                       form_values = None, status_info = Some status2 \<rparr>,
                     tr2)))"

text \<open>\<open>VerificationOrchestrator.run\<close>: the result and the log of calls.\<close>

definition run :: "world \<Rightarrow> profile \<Rightarrow> result \<times> event list" where
  "run w p =
     (case before_gate w p of
        Inl r \<Rightarrow> r
      | Inr (data, tr) \<Rightarrow>
          (case submit_gate w tr data of
             (Gate_abort r, tr1) \<Rightarrow> (r, tr1)
           | (Gate_proceed, tr1) \<Rightarrow> submit_and_poll w tr1))"


section \<open>Form snapshot (form_ready_dump.py)\<close>

text \<open>
  The two ways a read of the page enters the snapshot. A locator read (\<open>input_value\<close>,
  \<open>get_attribute\<close>, \<open>text_content\<close>, \<open>inner_text\<close>) is taken as
  \<open>(x or "").strip()\<close> and counts when that is non-empty; a read that raises is skipped.
  The result of a page script (\<open>evaluate\<close>), a string the script has trimmed itself, is
  taken as it is and counts when it is non-empty.
\<close>

fun stripped_read :: "probe \<Rightarrow> string option" where
  "stripped_read (Probe_value (Some s)) = (if py_strip s \<noteq> [] then Some (py_strip s) else None)"
| "stripped_read _ = None"

fun script_read :: "probe \<Rightarrow> string option" where
  "script_read (Probe_value (Some s)) = (if s \<noteq> [] then Some s else None)"
| "script_read _ = None"

fun first_some :: "'a option list \<Rightarrow> 'a option" where
  "first_some [] = None"
| "first_some (None # xs) = first_some xs"
| "first_some (Some x # xs) = Some x"

text \<open>\<open>a in b\<close> for two strings.\<close>

fun py_in :: "string \<Rightarrow> string \<Rightarrow> bool" where
  "py_in a [] = (a = [])"
| "py_in a (c # cs) = (prefix a (c # cs) \<or> py_in a cs)"

text \<open>A string with something in it and no whitespace around it.\<close>

definition clean :: "string \<Rightarrow> bool" where
  "clean t = (t \<noteq> [] \<and> py_strip t = t)"

text \<open>
  The page as \<open>dump_form_ready\<close> reads it. For a selector, \<open>None\<close> says that no
  element matches (\<open>safe_count\<close> is 0, also when counting raises), and otherwise come
  the reads of the first match in the order made.

  \<^item> \<open>hidden_inputs\<close>: for the 8 hidden selectors of \<open>_read_school_id_multi_source\<close>,
    \<open>input_value\<close> and the \<open>value\<close> attribute;
  \<^item> \<open>combobox_inputs\<close>: for its 5 input selectors, the 4 \<open>data-*\<close> attributes, the
    script that follows \<open>aria-activedescendant\<close> and the script that reads the dataset;
  \<^item> \<open>selected_wrap\<close>: the 5 attributes of the selected container and its dataset script;
  \<^item> \<open>option_nodes\<close>: for the 4 option selectors, the 5 attributes;
  \<^item> \<open>container_hidden_inputs\<close>: \<open>None\<close> without a selected container, else the 7
    hidden candidates below it, each with \<open>input_value\<close> and the \<open>value\<close> attribute;
  \<^item> \<open>page_id_script\<close>: the result of the script of \<open>_read_school_id_from_js\<close>;
  \<^item> \<open>school_id_field\<close>, \<open>school_text_field\<close>: \<open>input_value\<close> and the \<open>value\<close>
    attribute of the first match of \<open>SCHOOL_ID_SEL\<close> and of \<open>SCHOOL_TEXT_SEL\<close>;
  \<^item> \<open>selected_name_text\<close>, \<open>selected_location_text\<close>, \<open>school_text_node\<close>:
    \<open>text_content\<close> and \<open>inner_text\<close> of the name card, of its location line and of
    the first match of \<open>SCHOOL_TEXT_SEL\<close>;
  \<^item> \<open>ensure_consent\<close>: what \<open>ensure_consent_checked\<close> returns;
  \<^item> \<open>checkbox_states\<close>: what \<open>checked\<close> yields for the 5 selectors of \<open>any_checked\<close>;
  \<^item> \<open>invalid_fields\<close>: the number of \<open>[aria-invalid="true"]\<close> nodes, \<open>None\<close> when
    counting raises.
\<close>

record form_page =
  hidden_inputs :: "(probe \<times> probe) option list"
  combobox_inputs :: "(probe list \<times> probe \<times> probe) option list"
  selected_wrap :: "(probe list \<times> probe) option"
  option_nodes :: "probe list option list"
  container_hidden_inputs :: "(probe \<times> probe) option list option"
  page_id_script :: probe
  school_id_field :: "(probe \<times> probe) option"
  school_text_field :: "(probe \<times> probe) option"
  selected_name_text :: "(probe \<times> probe) option"
  selected_location_text :: "(probe \<times> probe) option"
  school_text_node :: "(probe \<times> probe) option"
  ensure_consent :: bool
  checkbox_states :: "bool option list"
  invalid_fields :: "nat option"

text \<open>\<open>val\<close> and \<open>text\<close>: the first of the two reads that is non-blank, stripped.\<close>

definition first_stripped :: "(probe \<times> probe) option \<Rightarrow> string option" where
  "first_stripped e =
     (case e of None \<Rightarrow> None | Some (a, b) \<Rightarrow> first_some [stripped_read a, stripped_read b])"

definition read_school_id_multi_source :: "form_page \<Rightarrow> string option" where
  "read_school_id_multi_source pg =
     first_some
       (map first_stripped (hidden_inputs pg)
        @ concat (map (\<lambda>e. case e of
                              None \<Rightarrow> []
                            | Some (attrs, active, dataset) \<Rightarrow>
                                map stripped_read attrs @ [script_read active, script_read dataset])
                      (combobox_inputs pg))
        @ (case selected_wrap pg of
             None \<Rightarrow> []
           | Some (attrs, dataset) \<Rightarrow> map stripped_read attrs @ [script_read dataset])
        @ concat (map (\<lambda>e. case e of None \<Rightarrow> [] | Some attrs \<Rightarrow> map stripped_read attrs)
                      (option_nodes pg)))"

definition read_school_id_from_org_container_descendants :: "form_page \<Rightarrow> string option" where
  "read_school_id_from_org_container_descendants pg =
     (case container_hidden_inputs pg of
        None \<Rightarrow> None
      | Some candidates \<Rightarrow> first_some (map first_stripped candidates))"

definition read_school_id_from_js :: "form_page \<Rightarrow> string option" where
  "read_school_id_from_js pg = stripped_read (page_id_script pg)"

text \<open>
  The school text: the name card with its location when there is a name, else the value
  or the text of the school field.
\<close>

definition built_school_text :: "form_page \<Rightarrow> string option" where
  "built_school_text pg =
     (let school_text =
            (case first_stripped (selected_name_text pg) of
               None \<Rightarrow> None
             | Some selected_name \<Rightarrow>
                 (let n = py_strip selected_name;
                      l = py_strip (or_empty (first_stripped (selected_location_text pg)))
                  in if l \<noteq> [] \<and> py_in (py_lower l) (py_lower n) then Some n
                     else Some (py_strip (n @ '' '' @ l))))
      in if school_text = None \<or> school_text = Some []
         then first_some [first_stripped (school_text_field pg),
                          first_stripped (school_text_node pg)]
         else school_text)"

text \<open>
  \<open>dump_form_ready\<close>, restricted to the four entries the orchestrator reads. Every
  later source of the school id is asked only while the id is still missing.
\<close>

definition dump_form_ready_on :: "form_page \<Rightarrow> snapshot" where
  "dump_form_ready_on pg =
     \<lparr> schoolId = first_some [read_school_id_multi_source pg,
                              read_school_id_from_org_container_descendants pg,
                              read_school_id_from_js pg,
                              first_stripped (school_id_field pg)],
       schoolText = built_school_text pg,
       consentChecked = (if ensure_consent pg then Some True
                         else first_some (checkbox_states pg)),
       ariaInvalidCount = (case invalid_fields pg of None \<Rightarrow> - 1 | Some n \<Rightarrow> int n) \<rparr>"

text \<open>
  A world whose snapshot function is the repository's \<open>dump_form_ready\<close>, reading the
  page as it is at each call.
\<close>

definition snapshot_of_pages :: "(nat \<Rightarrow> form_page) \<Rightarrow> (nat \<Rightarrow> exn + dumpval) option" where
  "snapshot_of_pages pages = Some (\<lambda>k. Inr (Dict (dump_form_ready_on (pages k))))"

text \<open>
  Example pages. An empty form with consent given; the same with the name card of Acme
  University; and the empty form whose combobox carries the one-character identifier
  U+001F in \<open>data-selected-id\<close>: Python's \<open>strip\<close> removes it, the page script's
  \<open>trim\<close> does not.
\<close>

definition empty_form :: form_page where
  "empty_form =
     \<lparr> hidden_inputs = replicate 8 None,
       combobox_inputs = replicate 5 None,
       selected_wrap = None,
       option_nodes = replicate 4 None,
       container_hidden_inputs = None,
       page_id_script = Probe_value (Some []),
       school_id_field = None,
       school_text_field = None,
       selected_name_text = None,
       selected_location_text = None,
       school_text_node = None,
       ensure_consent = True,
       checkbox_states = replicate 5 None,
       invalid_fields = Some 0 \<rparr>"

definition acme_form :: form_page where
  "acme_form =
     empty_form\<lparr> selected_name_text :=
                    Some (Probe_value (Some '' Acme University ''), Probe_raises) \<rparr>"

definition stray_id_form :: form_page where
  "stray_id_form =
     empty_form\<lparr> combobox_inputs :=
                    [Some ([Probe_value (Some [CHR 0x1F]), Probe_value None,
                            Probe_value None, Probe_value None],
                           Probe_value (Some []),
                           Probe_value (Some [CHR 0x1F])),
                     None, None, None, None],
                  school_text_field := Some (Probe_value (Some []), Probe_value None),
                  school_text_node := Some (Probe_value (Some []), Probe_value (Some [])) \<rparr>"

definition late_consent_pages :: "nat \<Rightarrow> form_page" where
  "late_consent_pages k =
     (if k = 0 then acme_form\<lparr> ensure_consent := False \<rparr> else acme_form)"


section \<open>Verifier (sheerid_verifier.py)\<close>

text \<open>
  The fields of \<open>SheerIDVerifier\<close> that the claims are about: the single-use flag, the
  locale, the Accept-Language value, and the Accept-Language value held by the API client
  (\<open>None\<close> while the client does not exist).
\<close>

record verifier =
  has_run :: bool
  cur_locale :: string
  accept_language :: string
  api_accept_language :: "string option"

text \<open>
  The header \<open>request_json\<close> sends: \<open>if self.accept_language:
  headers["Accept-Language"] = self.accept_language\<close>, computed at every request.
\<close>

definition outbound_accept_language :: "verifier \<Rightarrow> string option" where
  "outbound_accept_language v =
     (case api_accept_language v of
        None \<Rightarrow> None
      | Some al \<Rightarrow> if al \<noteq> [] then Some al else None)"

text \<open>
  \<open>_ensure_api_service\<close>: nothing to do once the service exists; otherwise the browser
  is brought up (which may raise) and the client is created with the Accept-Language
  value of that moment.
\<close>

definition ensure_api_service :: "exn option \<Rightarrow> verifier \<Rightarrow> exn + verifier" where
  "ensure_api_service browser v =
     (case api_accept_language v of
        Some al \<Rightarrow> Inr v
      | None \<Rightarrow>
          (case browser of
             Some e \<Rightarrow> Inl e
           | None \<Rightarrow> Inr (v\<lparr> api_accept_language := Some (accept_language v) \<rparr>)))"

text \<open>
  \<open>srv_locale = (pre_data.get("locale") or "").strip()\<close>: \<open>None\<close> here when the
  expression raises, which it does on a true value that is not a string.
\<close>

definition server_locale :: "(string \<times> pyval) list \<Rightarrow> string option" where
  "server_locale d =
     (let x = dict_get d ''locale'' PNone
      in if py_truthy x
         then (case x of PStr s \<Rightarrow> Some (py_strip s) | _ \<Rightarrow> None)
         else Some [])"

text \<open>
  \<open>f"{srv_locale},{srv_locale.split('-')[0]};q=0.9,en-US;q=0.8,en;q=0.7"\<close>
\<close>

definition override_accept_language :: "string \<Rightarrow> string" where
  "override_accept_language srv =
     srv @ '','' @ (case py_split (CHR ''-'') srv of [] \<Rightarrow> [] | p # ps \<Rightarrow> p)
         @ '';q=0.9,en-US;q=0.8,en;q=0.7''"

text \<open>The \<open>try: ... except Exception: pass\<close> block of \<open>_do_precheck\<close>.\<close>

definition apply_server_locale :: "(string \<times> pyval) list \<Rightarrow> verifier \<Rightarrow> verifier" where
  "apply_server_locale d v =
     (case server_locale d of
        None \<Rightarrow> v
      | Some srv_locale \<Rightarrow>
          if srv_locale \<noteq> [] \<and> srv_locale \<noteq> cur_locale v
          then (let v1 = v\<lparr> cur_locale := srv_locale \<rparr>;
                    v2 = v1\<lparr> accept_language := override_accept_language srv_locale \<rparr>
                in case api_accept_language v2 of
                     None \<Rightarrow> v2
                   | Some al \<Rightarrow> v2\<lparr> api_accept_language := Some (accept_language v2) \<rparr>)
          else v)"

text \<open>
  \<open>_do_precheck\<close>, given whether bringing up the browser raises and what the status
  request yields: the result handed to the orchestrator and the verifier afterwards.
\<close>

definition verifier_do_precheck ::
  "exn option \<Rightarrow> (exn + pyval \<times> int) \<Rightarrow> verifier \<Rightarrow> (exn + pyval \<times> pyval) \<times> verifier" where
  "verifier_do_precheck browser out v =
     (case ensure_api_service browser v of
        Inl e \<Rightarrow> (Inl e, v)
      | Inr v1 \<Rightarrow>
          (case svc_precheck out of
             Inl e \<Rightarrow> (Inl e, v1)
           | Inr (step, pre_data) \<Rightarrow>
               (case pre_data of
                  PDict d \<Rightarrow> (Inr (step, pre_data), apply_server_locale d v1)
                | _ \<Rightarrow> (Inl (PyException ''AttributeError''), v1))))"

text \<open>
  The verifier after the first \<open>k\<close> prechecks of a run, \<open>rs k\<close> being what the status
  request of the \<open>k\<close>-th precheck yields; and the answer of the \<open>k\<close>-th precheck, which is
  the \<open>do_precheck\<close> dependency that \<open>verify\<close> hands to the orchestrator.
\<close>

fun verifier_after ::
  "exn option \<Rightarrow> (nat \<Rightarrow> exn + pyval \<times> int) \<Rightarrow> verifier \<Rightarrow> nat \<Rightarrow> verifier" where
  "verifier_after browser rs v 0 = v"
| "verifier_after browser rs v (Suc k) =
     snd (verifier_do_precheck browser (rs k) (verifier_after browser rs v k))"

definition precheck_dep ::
  "exn option \<Rightarrow> (nat \<Rightarrow> exn + pyval \<times> int) \<Rightarrow> verifier \<Rightarrow> nat \<Rightarrow> exn + pyval \<times> pyval" where
  "precheck_dep browser rs v k =
     fst (verifier_do_precheck browser (rs k) (verifier_after browser rs v k))"

text \<open>
  What \<open>verify\<close> finds around it: the browser, the status requests, the page and form
  behaviour (a \<open>world\<close> whose \<open>do_precheck\<close> and \<open>ensure_browser\<close> are replaced by the
  verifier's own; \<open>_ensure_browser\<close> returns at once when the precheck has brought the
  browser up), and what the name and birth-date generators return (their module is not
  among the sources).
\<close>

record site =
  browser :: "exn option"
  responses :: "nat \<Rightarrow> exn + pyval \<times> int"
  page :: world
  gen_first_name :: string
  gen_last_name :: string
  gen_birth_date :: string

definition wired_world :: "site \<Rightarrow> verifier \<Rightarrow> world" where
  "wired_world s v =
     (page s)\<lparr> do_precheck := precheck_dep (browser s) (responses s) v,
               ensure_browser := None \<rparr>"

text \<open>
  \<open>config.SCHOOLS\<close> (id and name) and \<open>config.get_school\<close>, with
  \<open>DEFAULT_SCHOOL_ID\<close> passed in.
\<close>

definition schools :: "(string \<times> string) list" where
  "schools = [(''110565'', ''California State University-Fullerton'')]"

definition get_school :: "string \<Rightarrow> string \<Rightarrow> string option" where
  "get_school default_school_id school_id =
     (let sid = py_strip (if school_id \<noteq> [] then school_id else default_school_id)
      in case map_of schools sid of
           Some n \<Rightarrow> Some n
         | None \<Rightarrow>
             (case map_of schools default_school_id of
                Some n \<Rightarrow> Some n
              | None \<Rightarrow> map_of schools ''110565''))"

record verify_args =
  arg_first_name :: "string option"
  arg_last_name :: "string option"
  arg_email :: "string option"
  arg_birth_date :: "string option"
  arg_school_id :: "string option"

text \<open>\<open>x or y\<close> on an optional string.\<close>

definition or_else :: "string option \<Rightarrow> string \<Rightarrow> string" where
  "or_else x y = (case x of None \<Rightarrow> y | Some s \<Rightarrow> if s \<noteq> [] then s else y)"

text \<open>The rewrite of the message after the orchestrator has returned.\<close>

definition rewrite_message :: "result \<Rightarrow> result" where
  "rewrite_message out =
     (case status_info out of
        Some st \<Rightarrow>
          if py_truthy st \<and> success out = False \<and> message out = Msg_error_after_submit
          then out\<lparr> message := Msg_error_after_submit_detail st \<rparr>
          else out
      | None \<Rightarrow> out)"

text \<open>
  The body of the \<open>try\<close> block of \<open>verify\<close>: \<open>Inl\<close> is an exception raised in it.
  \<open>default_school_id\<close> is \<open>config.DEFAULT_SCHOOL_ID\<close>.
\<close>

definition verify_body ::
  "site \<Rightarrow> string \<Rightarrow> verify_args \<Rightarrow> verifier \<Rightarrow> (exn + result) \<times> verifier" where
  "verify_body s default_school_id a v =
     (if has_run v then (Inl Single_use, v)
      else
        (let v1 = v\<lparr> has_run := True \<rparr>;
             fn = or_else (arg_first_name a) (gen_first_name s);
             ln = or_else (arg_last_name a) (gen_last_name s)
         in if or_else (arg_email a) [] = [] then (Inl No_email, v1)
            else
              (case get_school default_school_id (or_else (arg_school_id a) default_school_id) of
                 None \<Rightarrow> (Inl Unknown_school, v1)
               | Some name \<Rightarrow>
                   (let p = \<lparr> first_name = fn, last_name = ln,
                              email = or_else (arg_email a) [],
                              birth_date = or_else (arg_birth_date a) (gen_birth_date s),
                              school_name = name, verification_id = [] \<rparr>;
                        (out, tr) = run (wired_world s v1) p;
                        v2 = verifier_after (browser s) (responses s) v1
                               (count_list tr E_precheck)
                    in (Inr (rewrite_message out), v2)))))"

text \<open>
  \<open>verify\<close>: the \<open>except Exception as e\<close> of the whole body turns an exception into a
  failure result. \<open>Inl\<close> would be an exception that reaches the caller.
\<close>

definition verify ::
  "site \<Rightarrow> string \<Rightarrow> verify_args \<Rightarrow> verifier \<Rightarrow> (exn + result) \<times> verifier" where
  "verify s default_school_id a v =
     (case verify_body s default_school_id a v of
        (Inl e, v') \<Rightarrow>
          (Inr \<lparr> success = False, message = Msg_exception e, form_values = None,
                 status_info = None \<rparr>, v')
      | (Inr out, v') \<Rightarrow> (Inr out, v'))"

text \<open>
  A fresh verifier as \<open>__init__\<close> leaves it with \<open>ONE_SHEERID_FORCE_EN_US\<close> unset, and
  example sites: the status requests answer the step \<open>pending\<close>; or they declare a
  French locale once and an American one afterwards while staying at the initial step.
\<close>

definition fresh_verifier :: verifier where
  "fresh_verifier = \<lparr> has_run = False, cur_locale = ''en-US'',
                       accept_language = ''en-US,en;q=0.9'', api_accept_language = None \<rparr>"

definition only_email :: verify_args where
  "only_email = \<lparr> arg_first_name = None, arg_last_name = None,
                   arg_email = Some ''ada@example.edu'', arg_birth_date = None,
                   arg_school_id = None \<rparr>"

definition no_email :: verify_args where
  "no_email = \<lparr> arg_first_name = None, arg_last_name = None, arg_email = None,
                 arg_birth_date = None, arg_school_id = None \<rparr>"

text \<open>
  Example snapshots and worlds. In \<open>calm_world\<close> nothing raises, the precheck answers
  the initial step first and \<open>pending\<close> afterwards, and the dump yields the snapshot with
  the organization given by text alone.
\<close>

definition acme_snapshot :: snapshot where
  "acme_snapshot = \<lparr> schoolId = Some [], schoolText = Some ''Acme University'',
                       consentChecked = Some True, ariaInvalidCount = 0 \<rparr>"

definition no_org_snapshot :: snapshot where
  "no_org_snapshot = \<lparr> schoolId = Some [], schoolText = Some [],
                         consentChecked = Some True, ariaInvalidCount = 0 \<rparr>"

definition unticked_snapshot :: snapshot where
  "unticked_snapshot = \<lparr> schoolId = Some [], schoolText = Some ''Acme University'',
                           consentChecked = Some False, ariaInvalidCount = 0 \<rparr>"

definition calm_world :: world where
  "calm_world =
     \<lparr> env_force_ui = None, env_dry_run = None,
       do_precheck = (\<lambda>k. Inr (if k = 0 then initial_step else PStr ''pending'', PDict [])),
       ensure_browser = None, ensure_form = None, new_page = None, page_goto = None,
       page_wait_timeout = None, wait_network_idle_soft = (\<lambda>k. None),
       locate_form_frame = None, human_delay = (\<lambda>k. None), fill_text = (\<lambda>k. None),
       fill_org_and_select_first = None, fill_birth_date_any = None,
       check_all_visible_checkboxes = (\<lambda>k. None),
       dump_form_ready = Some (\<lambda>k. Inr (Dict acme_snapshot)),
       click_submit = None \<rparr>"

definition student :: profile where
  "student = \<lparr> first_name = ''Ada'', last_name = ''Lovelace'', email = ''ada@example.edu'',
               birth_date = ''2001-3-14'', school_name = ''Acme University'',
               verification_id = ''abc123'' \<rparr>"

text \<open>The fields are filled and read back in every world below; only the dump differs.\<close>

definition filled_trace :: "event list" where
  "filled_trace =
     [E_precheck, E_ensure_browser, E_ensure_form, E_new_page, E_goto, E_wait_timeout,
      E_wait_network_idle, E_locate_form_frame,
      E_human_delay, E_fill_text ''first_name'' ''Ada'',
      E_human_delay, E_fill_text ''last_name'' ''Lovelace'',
      E_human_delay, E_fill_text ''email'' ''ada@example.edu'',
      E_human_delay, E_fill_org ''Acme University'',
      E_human_delay, E_fill_birth_date ''2001-3-14'',
      E_human_delay, E_check_checkboxes]"

definition dump_world :: "(nat \<Rightarrow> exn + dumpval) option \<Rightarrow> world" where
  "dump_world dump = calm_world\<lparr> dump_form_ready := dump \<rparr>"

definition precheck_world :: "pyval \<Rightarrow> world" where
  "precheck_world step = calm_world\<lparr> do_precheck := (\<lambda>k. Inr (step, PDict [])) \<rparr>"


definition recheck_fails_world :: world where
  "recheck_fails_world =
     calm_world\<lparr> dump_form_ready := Some (\<lambda>k. Inr (Dict unticked_snapshot)),
                   check_all_visible_checkboxes :=
                     (\<lambda>k. if k = 0 then None else Some (PyException ''frame detached'')) \<rparr>"

definition redump_none_world :: world where
  "redump_none_world =
     dump_world (Some (\<lambda>k. if k = 0 then Inr (Dict unticked_snapshot) else Inr No_dict))"

definition bare_payload :: pyval where
  "bare_payload = PDict [(''locale'', PStr ''en-US'')]"

definition bare_world :: world where
  "bare_world = calm_world\<lparr> do_precheck := (\<lambda>k. svc_precheck (Inr (bare_payload, 200))) \<rparr>"

text \<open>
  Two things that can happen in the remediation pass: one of its calls raises, or its
  second dump hands back something that is not a dictionary.
\<close>

definition remediation_raises :: "world \<Rightarrow> event list \<Rightarrow> bool" where
  "remediation_raises w tr =
     (case do_seq w [E_human_delay, E_check_checkboxes] tr of
        (Some e, tr1) \<Rightarrow> True
      | (None, tr1) \<Rightarrow>
          (case dump_form_ready w of
             None \<Rightarrow> False
           | Some dump \<Rightarrow>
               (case dump (count_list tr1 E_dump_form_ready) of
                  Inl e \<Rightarrow> True
                | Inr d \<Rightarrow> False)))"

definition redump_not_dict :: "world \<Rightarrow> event list \<Rightarrow> bool" where
  "redump_not_dict w tr =
     (case do_seq w [E_human_delay, E_check_checkboxes] tr of
        (Some e, tr1) \<Rightarrow> False
      | (None, tr1) \<Rightarrow>
          (case dump_form_ready w of
             None \<Rightarrow> False
           | Some dump \<Rightarrow>
               (case dump (count_list tr1 E_dump_form_ready) of
                  Inl e \<Rightarrow> False
                | Inr d \<Rightarrow> d = No_dict)))"


definition pending_site :: site where
  "pending_site =
     \<lparr> browser = None,
       responses = (\<lambda>k. Inr (PDict [(''currentStep'', PStr ''pending'')], 200)),
       page = calm_world,
       gen_first_name = ''Ada'', gen_last_name = ''Lovelace'', gen_birth_date = ''2001-3-14'' \<rparr>"

definition locale_payload :: "string \<Rightarrow> pyval" where
  "locale_payload l = PDict [(''currentStep'', PStr ''collectStudentPersonalInfo''),
                             (''locale'', PStr l)]"

definition swinging_responses :: "nat \<Rightarrow> exn + pyval \<times> int" where
  "swinging_responses k =
     Inr (locale_payload (if k = 0 then ''fr-FR'' else ''en-US''), 200)"

definition swinging_site :: site where
  "swinging_site = pending_site\<lparr> responses := swinging_responses \<rparr>"


section \<open>Rounding to doubles\<close>

lemma round_half_even_bounds:
  "of_int n \<le> y \<Longrightarrow> n \<le> round_half_even y"
  "y \<le> of_int m \<Longrightarrow> round_half_even y \<le> m"
  "\<bar>of_int (round_half_even y) - y\<bar> \<le> 1 / 2"
proof -
  have f: "of_int \<lfloor>y\<rfloor> \<le> y" "y < of_int \<lfloor>y\<rfloor> + 1" by linarith+
  show "n \<le> round_half_even y" if "of_int n \<le> y"
  proof -
    have "n \<le> \<lfloor>y\<rfloor>" using that by (simp add: le_floor_iff)
    then show ?thesis by (auto simp: round_half_even_def Let_def)
  qed
  show "round_half_even y \<le> m" if "y \<le> of_int m"
  proof (cases "y = of_int \<lfloor>y\<rfloor>")
    case True
    then have "\<lfloor>y\<rfloor> \<le> m" using that by (simp add: floor_le_iff)
    moreover have "y - of_int \<lfloor>y\<rfloor> = 0" using True by simp
    ultimately show ?thesis by (simp add: round_half_even_def Let_def)
  next
    case False
    then have "of_int \<lfloor>y\<rfloor> < y" by (metis f(1) order_less_le)
    then have "of_int \<lfloor>y\<rfloor> < (of_int m :: rat)" using that by simp
    then have "\<lfloor>y\<rfloor> < m" by simp
    then show ?thesis by (auto simp: round_half_even_def Let_def)
  qed
  show "\<bar>of_int (round_half_even y) - y\<bar> \<le> 1 / 2"
  proof -
    define r where "r = y - of_int \<lfloor>y\<rfloor>"
    have r: "0 \<le> r" "r < 1" "y = of_int \<lfloor>y\<rfloor> + r" using f by (simp_all add: r_def)
    consider "r < 1 / 2" | "1 / 2 < r" | "r = 1 / 2" by linarith
    then show ?thesis
    proof cases
      case 1
      then have "round_half_even y = \<lfloor>y\<rfloor>"
        by (simp add: round_half_even_def Let_def r_def)
      then show ?thesis using r 1 by (simp add: r_def)
    next
      case 2
      then have "round_half_even y = \<lfloor>y\<rfloor> + 1"
        by (simp add: round_half_even_def Let_def r_def)
      then show ?thesis using r 2 by (simp add: r_def)
    next
      case 3
      then have "round_half_even y = \<lfloor>y\<rfloor> \<or> round_half_even y = \<lfloor>y\<rfloor> + 1"
        by (simp add: round_half_even_def Let_def r_def)
      then show ?thesis using r 3 by (auto simp: r_def)
    qed
  qed
qed


lemma bitlen_floor_eq:
  fixes x :: rat
  assumes "2 ^ i \<le> x" and "x < 2 ^ Suc i"
  shows "bitlen \<lfloor>x\<rfloor> = int i + 1"
proof -
  let ?n = "\<lfloor>x\<rfloor>"
  have "(of_int (2 ^ i) :: rat) \<le> x" using assms(1) by simp
  then have lo: "2 ^ i \<le> ?n" by (simp only: le_floor_iff)
  have "x < (of_int (2 ^ Suc i) :: rat)" using assms(2) by simp
  then have hi: "?n < 2 ^ Suc i" by (simp only: floor_less_iff)
  have pos: "0 < ?n" using lo by (smt (verit) zero_less_power)
  from bitlen_bounds[OF pos] have b: "2 ^ nat (bitlen ?n - 1) \<le> ?n" "?n < 2 ^ nat (bitlen ?n)"
    by simp_all
  have "(2::int) ^ nat (bitlen ?n - 1) < 2 ^ Suc i" using b(1) hi by linarith
  then have 1: "nat (bitlen ?n - 1) < Suc i" by (rule power_less_imp_less_exp[rotated]) simp
  have "(2::int) ^ i < 2 ^ nat (bitlen ?n)" using b(2) lo by linarith
  then have 2: "i < nat (bitlen ?n)" by (rule power_less_imp_less_exp[rotated]) simp
  from 1 2 show ?thesis by linarith
qed

lemma nearest_double_binade:
  assumes "2 ^ i \<le> x" and "x \<le> 2 ^ Suc i"
  shows "2 ^ i \<le> nearest_double x \<and> nearest_double x \<le> 2 ^ Suc i
       \<and> \<bar>nearest_double x - x\<bar> \<le> 2 ^ i / 2 ^ 53"
proof (cases "x = 2 ^ Suc i")
  case True
  have "bitlen \<lfloor>x\<rfloor> = int (Suc i) + 1"
    by (rule bitlen_floor_eq) (simp_all add: True)
  then have e: "bitlen \<lfloor>x\<rfloor> - 1 = int (Suc i)" by simp
  define ulp :: rat where "ulp = 2 powi (int (Suc i) - 52)"
  have up: "0 < ulp" by (simp add: ulp_def)
  have "ulp * 2 ^ 52 = 2 powi (int (Suc i) - 52) * 2 powi 52" by (simp add: ulp_def)
  also have "\<dots> = 2 powi (int (Suc i) - 52 + 52)" by (subst power_int_add) simp_all
  also have "\<dots> = 2 powi int (Suc i)" by simp
  also have "\<dots> = 2 ^ Suc i" by (rule power_int_of_nat)
  finally have u: "ulp * 2 ^ 52 = 2 ^ Suc i" .
  have "x / ulp = 2 ^ 52" using u up True by (simp add: field_simps del: power_Suc)
  then have "x / ulp = of_int (2 ^ 52)" by simp
  then have "round_half_even (x / ulp) = 2 ^ 52"
    by (simp only: round_half_even_def Let_def floor_of_int) simp
  then have "nearest_double x = 2 ^ 52 * ulp"
    by (simp add: nearest_double_def Let_def e ulp_def del: power_Suc)
  then have "nearest_double x = x" using u True by (simp add: mult.commute del: power_Suc)
  then show ?thesis using assms by simp
next
  case False
  then have lt: "x < 2 ^ Suc i" using assms(2) by simp
  have "bitlen \<lfloor>x\<rfloor> = int i + 1" using assms(1) lt by (rule bitlen_floor_eq)
  then have e: "bitlen \<lfloor>x\<rfloor> - 1 = int i" by simp
  define ulp :: rat where "ulp = 2 powi (int i - 52)"
  have up: "0 < ulp" by (simp add: ulp_def)
  have "ulp * 2 ^ 52 = 2 powi (int i - 52) * 2 powi 52" by (simp add: ulp_def)
  also have "\<dots> = 2 powi (int i - 52 + 52)" by (subst power_int_add) simp_all
  also have "\<dots> = 2 ^ i" by simp
  finally have u: "ulp * 2 ^ 52 = 2 ^ i" .
  define r where "r = round_half_even (x / ulp)"
  have nd: "nearest_double x = of_int r * ulp"
    by (simp add: nearest_double_def Let_def e ulp_def r_def)
  have "of_int (2 ^ 52) \<le> x / ulp"
    using assms(1) u up by (simp add: field_simps)
  then have lo: "2 ^ 52 \<le> r" unfolding r_def by (rule round_half_even_bounds(1))
  have "x / ulp \<le> of_int (2 ^ 53)"
    using assms(2) u up by (simp add: field_simps)
  then have hi: "r \<le> 2 ^ 53" unfolding r_def by (rule round_half_even_bounds(2))
  have u0: "0 \<le> ulp" using up by simp
  have "(of_int (2 ^ 52) :: rat) \<le> of_int r" using lo by (simp only: of_int_le_iff)
  then have "of_int (2 ^ 52) * ulp \<le> of_int r * ulp" using u0 by (rule mult_right_mono)
  moreover have "(of_int (2 ^ 52) :: rat) * ulp = 2 ^ i" using u by (simp add: mult.commute)
  ultimately have 1: "2 ^ i \<le> nearest_double x" by (simp only: nd)
  have "(of_int r :: rat) \<le> of_int (2 ^ 53)" using hi by (simp only: of_int_le_iff)
  then have "of_int r * ulp \<le> of_int (2 ^ 53) * ulp" using u0 by (rule mult_right_mono)
  moreover have "(of_int (2 ^ 53) :: rat) * ulp = 2 * (ulp * 2 ^ 52)" by simp
  ultimately have "of_int r * ulp \<le> 2 * 2 ^ i" by (simp only: u)
  then have 2: "nearest_double x \<le> 2 ^ Suc i" by (simp only: nd power_Suc)
  have "\<bar>of_int r - x / ulp\<bar> \<le> 1 / 2" unfolding r_def by (rule round_half_even_bounds(3))
  then have "\<bar>of_int r - x / ulp\<bar> * ulp \<le> 1 / 2 * ulp" using u0 by (rule mult_right_mono)
  moreover have "\<bar>of_int r - x / ulp\<bar> * ulp = \<bar>(of_int r - x / ulp) * ulp\<bar>"
    using u0 by (simp only: abs_mult abs_of_nonneg)
  moreover have "(of_int r - x / ulp) * ulp = of_int r * ulp - x"
    using up by (simp add: left_diff_distrib)
  moreover have "1 / 2 * ulp = (ulp * 2 ^ 52) / 2 ^ 53" by simp
  ultimately have 3: "\<bar>nearest_double x - x\<bar> \<le> 2 ^ i / 2 ^ 53" by (simp only: nd u)
  from 1 2 3 show ?thesis by blast
qed


section \<open>Backoff properties\<close>

lemma nearest_double_pow2: "nearest_double (2 ^ i) = 2 ^ i"
proof -
  have "bitlen \<lfloor>(2::rat) ^ i\<rfloor> = int i + 1" by (rule bitlen_floor_eq) simp_all
  then have e: "bitlen \<lfloor>(2::rat) ^ i\<rfloor> - 1 = int i" by simp
  define ulp :: rat where "ulp = 2 powi (int i - 52)"
  have up: "0 < ulp" by (simp add: ulp_def)
  have "ulp * 2 ^ 52 = 2 powi (int i - 52) * 2 powi 52" by (simp add: ulp_def)
  also have "\<dots> = 2 powi (int i - 52 + 52)" by (subst power_int_add) simp_all
  also have "\<dots> = 2 ^ i" by simp
  finally have u: "ulp * 2 ^ 52 = 2 ^ i" .
  have "2 ^ i / ulp = 2 ^ 52" using u up by (simp add: field_simps)
  then have "2 ^ i / ulp = of_int (2 ^ 52)" by simp
  then have "round_half_even (2 ^ i / ulp) = 2 ^ 52"
    by (simp only: round_half_even_def Let_def floor_of_int) simp
  moreover have "nearest_double (2 ^ i) = of_int (round_half_even (2 ^ i / ulp)) * ulp"
    unfolding nearest_double_def Let_def e ulp_def ..
  ultimately have "nearest_double (2 ^ i) = 2 ^ 52 * ulp" by simp
  then show ?thesis using u by (simp add: mult.commute)
qed


lemma float_of_int_pow2:
  "i \<le> 1023 \<Longrightarrow> float_of_int (2 ^ i) = Inr (2 ^ i)"
  "1024 \<le> i \<Longrightarrow> float_of_int (2 ^ i) = Inl (PyException ''int too large to convert to float'')"
proof -
  show "float_of_int (2 ^ i) = Inr (2 ^ i)" if "i \<le> 1023"
  proof -
    have "(2::int) ^ i \<le> 2 ^ 1023" using that by (intro power_increasing) simp_all
    moreover have "(2::int) ^ 1023 < 2 ^ 1024 - 2 ^ 970" by simp
    ultimately have "\<not> (2 ^ 1024 - 2 ^ 970 \<le> (2::int) ^ i)" by linarith
    then show ?thesis using nearest_double_pow2[of i] by (simp add: float_of_int_def)
  qed
  show "float_of_int (2 ^ i) = Inl (PyException ''int too large to convert to float'')"
    if "1024 \<le> i"
  proof -
    have "(2::int) ^ 1024 \<le> 2 ^ i" using that by (intro power_increasing) simp_all
    then have "2 ^ 1024 - 2 ^ 970 \<le> (2::int) ^ i" by simp
    then show ?thesis by (simp add: float_of_int_def)
  qed
qed

lemma compute_backoff_value:
  assumes "0 \<le> i" and "i \<le> 1023"
  shows "compute_backoff_sec st j i
           = Inr (py_min (backoff_cap_sec st) (Finite (nearest_double (2 ^ nat i + j))))"
proof -
  have "nat i \<le> 1023" using assms by simp
  from float_of_int_pow2(1)[OF this] show ?thesis
    using assms(1) by (simp add: compute_backoff_sec_def Let_def max_def)
qed

lemma py_min_le_cap: "c \<noteq> NaN \<Longrightarrow> float_le (py_min c (Finite x)) c"
  by (cases c) (simp_all add: py_min_def)

lemma py_min_mono:
  "c \<noteq> NaN \<Longrightarrow> x \<le> y \<Longrightarrow> float_le (py_min c (Finite x)) (py_min c (Finite y))"
  by (cases c) (auto simp: py_min_def)

lemma rounded_sum_mono:
  assumes "0 \<le> j" and "j \<le> 1" and "i \<le> k"
  shows "nearest_double (2 ^ i + j) \<le> nearest_double (2 ^ k + j)"
proof (cases "i = k")
  case True
  then show ?thesis by simp
next
  case False
  then have "Suc i \<le> k" using assms(3) by simp
  then have p: "(2::rat) ^ Suc i \<le> 2 ^ k" by (intro power_increasing) simp_all
  have one: "(1::rat) \<le> 2 ^ n" for n by simp
  have "2 ^ i + j \<le> (2::rat) ^ Suc i" using assms(2) one[of i] by (simp only: power_Suc)
  then have "nearest_double (2 ^ i + j) \<le> 2 ^ Suc i"
    using nearest_double_binade[of i "2 ^ i + j"] assms(1) by simp
  moreover have "2 ^ k + j \<le> (2::rat) ^ Suc k"
    using assms(2) one[of k] by (simp only: power_Suc)
  then have "2 ^ k \<le> nearest_double (2 ^ k + j)"
    using nearest_double_binade[of k "2 ^ k + j"] assms(1) by simp
  ultimately show ?thesis using p by linarith
qed

text \<open>
  C5, as amended. For every attempt index \<open>i\<close> from 0 to 1023, every jitter \<open>j\<close> in
  [0, 1] and every cap that is a number, the delay is \<open>min(cap, 2^i + j)\<close> as doubles
  compute it: the sum is the double nearest to \<open>2^i + j\<close>, at most \<open>2^(i-53)\<close> away from
  it. The delay never exceeds the cap, and for a fixed jitter it does not decrease when
  the attempt index grows up to 1023.
\<close>

theorem backoff_formula_cap_mono:
  assumes "0 \<le> i" and "i \<le> 1023" and "0 \<le> j" and "j \<le> 1"
    and "backoff_cap_sec st \<noteq> NaN"
  shows "compute_backoff_sec st j i
           = Inr (py_min (backoff_cap_sec st) (Finite (nearest_double (2 ^ nat i + j))))
       \<and> \<bar>nearest_double (2 ^ nat i + j) - (2 ^ nat i + j)\<bar> \<le> 2 ^ nat i / 2 ^ 53
       \<and> (\<exists>d. compute_backoff_sec st j i = Inr d \<and> float_le d (backoff_cap_sec st)
              \<and> (\<forall>k. i \<le> k \<and> k \<le> 1023 \<longrightarrow>
                     (\<exists>d'. compute_backoff_sec st j k = Inr d' \<and> float_le d d')))"
proof -
  let ?c = "backoff_cap_sec st"
  let ?d = "\<lambda>n. py_min ?c (Finite (nearest_double (2 ^ nat n + j)))"
  have v: "compute_backoff_sec st j i = Inr (?d i)"
    using assms(1,2) by (rule compute_backoff_value)
  have one: "(1::rat) \<le> 2 ^ n" for n by simp
  have "2 ^ nat i \<le> 2 ^ nat i + j" using assms(3) by simp
  moreover have "2 ^ nat i + j \<le> (2::rat) ^ Suc (nat i)"
    using assms(4) one[of "nat i"] by (simp only: power_Suc)
  ultimately
  have err: "\<bar>nearest_double (2 ^ nat i + j) - (2 ^ nat i + j)\<bar> \<le> 2 ^ nat i / 2 ^ 53"
    using nearest_double_binade[of "nat i" "2 ^ nat i + j"] by blast
  have cap: "float_le (?d i) ?c" using assms(5) by (rule py_min_le_cap)
  have mono: "\<exists>d'. compute_backoff_sec st j k = Inr d' \<and> float_le (?d i) d'"
    if "i \<le> k \<and> k \<le> 1023" for k
  proof -
    have "compute_backoff_sec st j k = Inr (?d k)"
      using that assms(1) by (intro compute_backoff_value) simp_all
    moreover have ik: "nat i \<le> nat k" using that by (intro nat_mono) simp
    have "nearest_double (2 ^ nat i + j) \<le> nearest_double (2 ^ nat k + j)"
      by (rule rounded_sum_mono[OF assms(3,4) ik])
    then have "float_le (?d i) (?d k)" by (rule py_min_mono[OF assms(5)])
    ultimately show ?thesis by blast
  qed
  from v err cap mono show ?thesis by blast
qed

theorem backoff_formula_cap_mono_witness:
  "(0::int) \<le> 3 \<and> (3::int) \<le> 1023 \<and> (0::rat) \<le> 1 / 2 \<and> (1 / 2 :: rat) \<le> 1
   \<and> backoff_cap_sec default_settings \<noteq> NaN
   \<and> compute_backoff_sec default_settings (1 / 2) 3 = Inr (Finite (17 / 2))
   \<and> compute_backoff_sec default_settings (1 / 2) 5 = Inr (Finite 30)
   \<and> float_le (Finite (17 / 2)) (backoff_cap_sec default_settings)
   \<and> float_le (Finite (17 / 2)) (Finite 30)"
proof -
  have h: "(0::int) \<le> 3" "(3::int) \<le> 1023" "(0::rat) \<le> 1 / 2" "(1 / 2 :: rat) \<le> 1"
    by simp_all
  have c: "backoff_cap_sec default_settings \<noteq> NaN" by (simp add: default_settings_def)
  have v3: "compute_backoff_sec default_settings (1 / 2) 3 = Inr (Finite (17 / 2))" by code_simp
  have v5: "compute_backoff_sec default_settings (1 / 2) 5 = Inr (Finite 30)" by code_simp
  from backoff_formula_cap_mono[OF h c] obtain d where
    d: "compute_backoff_sec default_settings (1 / 2) 3 = Inr d"
       "float_le d (backoff_cap_sec default_settings)"
       "\<forall>k. 3 \<le> k \<and> k \<le> 1023 \<longrightarrow>
          (\<exists>d'. compute_backoff_sec default_settings (1 / 2) k = Inr d' \<and> float_le d d')"
    by blast
  from d(1) v3 have dv: "d = Finite (17 / 2)" by simp
  from d(3) have "\<exists>d'. compute_backoff_sec default_settings (1 / 2) 5 = Inr d' \<and> float_le d d'"
    by simp
  then have "float_le d (Finite 30)" using v5 by simp
  with h c v3 v5 d(2) dv show ?thesis by simp
qed

text \<open>
  The claim as first stated fails. With the jitter \<open>2^-53\<close> the sum \<open>1 + 2^-53\<close> lies
  halfway between two doubles and the delay at attempt 0 is 1, not \<open>min(30, 1 + 2^-53)\<close>;
  and at attempt 1024 there is no delay: the conversion of \<open>2^1024\<close> raises.
\<close>

theorem backoff_sum_is_rounded:
  "compute_backoff_sec default_settings (1 / 2 ^ 53) 0 = Inr (Finite 1)
   \<and> min (30::rat) (2 ^ 0 + 1 / 2 ^ 53) \<noteq> 1
   \<and> compute_backoff_sec default_settings (1 / 2) 1024
       = Inl (PyException ''int too large to convert to float'')"
  by code_simp


section \<open>Retry contract of \<open>request_json\<close>\<close>

lemma upto_head: "a \<le> b \<Longrightarrow> x # rest = [a .. b] \<Longrightarrow> x = a \<and> rest = [a + 1 .. b]"
  by (simp add: upto_rec1)

lemma backoff_sleep_ok:
  assumes "0 \<le> a" and "a \<le> 1023"
  shows "backoff_sleep st jit a s =
           (None, s\<lparr>draws := Suc (draws s),
                    sleeps := sleeps s @ [py_min (backoff_cap_sec st)
                                (Finite (nearest_double (2 ^ nat a + jit (draws s))))]\<rparr>)"
  by (simp add: backoff_sleep_def Let_def compute_backoff_value[OF assms])

lemma request_loop_contract:
  "atts = [int (fetches s) .. max_retries st] \<Longrightarrow> int (fetches s) \<le> max_retries st \<Longrightarrow>
   max_retries st \<le> 1024 \<Longrightarrow>
   request_loop st jit tr atts s = (out, s') \<Longrightarrow>
     fetches s < fetches s' \<and> int (fetches s') \<le> max_retries st + 1
   \<and> (\<forall>k. fetches s \<le> k \<and> Suc k < fetches s' \<longrightarrow> retry_worthy (tr k))
   \<and> out = attempt_result (tr (fetches s' - 1))
   \<and> (int (fetches s') < max_retries st + 1 \<longrightarrow> \<not> retry_worthy (tr (fetches s' - 1)))
   \<and> length (sleeps s') + Suc (fetches s) = length (sleeps s) + fetches s'"
proof (induction atts arbitrary: s)
  case Nil
  then show ?case by (simp add: upto_rec1 split: if_splits)
next
  case (Cons a rest)
  from upto_head[OF Cons.prems(2) Cons.prems(1)]
  have a: "a = int (fetches s)" and rest: "rest = [int (fetches s) + 1 .. max_retries st]"
    by simp_all
  let ?k = "fetches s"
  show ?case
  proof (cases "a < max_retries st \<and> retry_worthy (tr ?k)")
    case True
    have a0: "0 \<le> a" "a \<le> 1023" using True a Cons.prems(3) by simp_all
    note bs = backoff_sleep_ok[OF a0, of st jit]
    obtain sn where step: "request_loop st jit tr (a # rest) s = request_loop st jit tr rest sn"
      and fsn: "fetches sn = Suc ?k" and ssn: "length (sleeps sn) = Suc (length (sleeps s))"
      using True
      by (auto simp: retry_worthy_def attempt_result_def on_exception_def Let_def bs
               split: fetch_outcome.splits sum.splits)
    have "rest = [int (fetches sn) .. max_retries st]"
      using rest fsn by (simp add: add.commute)
    moreover have "int (fetches sn) \<le> max_retries st" using True a fsn by simp
    moreover note Cons.prems(3)
    moreover have "request_loop st jit tr rest sn = (out, s')" using step Cons.prems(4) by simp
    ultimately have IH: "fetches sn < fetches s' \<and> int (fetches s') \<le> max_retries st + 1
       \<and> (\<forall>k. fetches sn \<le> k \<and> Suc k < fetches s' \<longrightarrow> retry_worthy (tr k))
       \<and> out = attempt_result (tr (fetches s' - 1))
       \<and> (int (fetches s') < max_retries st + 1 \<longrightarrow> \<not> retry_worthy (tr (fetches s' - 1)))
       \<and> length (sleeps s') + Suc (fetches sn) = length (sleeps sn) + fetches s'"
      by (rule Cons.IH)
    have "retry_worthy (tr k)" if "fetches s \<le> k \<and> Suc k < fetches s'" for k
    proof (cases "k = ?k")
      case True
      with \<open>a < max_retries st \<and> retry_worthy (tr ?k)\<close> show ?thesis by simp
    next
      case False
      then have "fetches sn \<le> k" using that fsn by simp
      then show ?thesis using IH that by blast
    qed
    then show ?thesis using IH fsn ssn by auto
  next
    case False
    then have "out = attempt_result (tr ?k) \<and> fetches s' = Suc ?k \<and> sleeps s' = sleeps s"
      using Cons.prems(4)
      by (auto simp: retry_worthy_def attempt_result_def on_exception_def Let_def
               split: fetch_outcome.splits sum.splits if_splits)
    then show ?thesis using False a Cons.prems(2) by auto
  qed
qed

text \<open>
  C4, as amended. For every transport behaviour \<open>tr\<close> (the outcome of its k-th call), a
  retry budget \<open>max_retries\<close> from 0 to 1024 and a backoff cap that is a number:
  \<open>request_json\<close> calls the transport at least once and at most \<open>max_retries + 1\<close> times,
  with one backoff sleep before each retry; every call but the last was followed by a
  retry only because the transport raised, or the status was one of 408, 429, 500, 502,
  503, 504, or the body could be read neither as JSON nor as text; it stops before the
  budget is used up only on a response that is none of these; and what it yields comes
  from the last call as it is: the exception of the transport or of reading the body
  re-raised, or the JSON body (or the first 500 characters of the text under the key
  \<open>raw\<close>) returned with the status, whatever the status.
\<close>

theorem request_json_retry_contract:
  assumes "0 \<le> max_retries st" and "max_retries st \<le> 1024"
    and "backoff_cap_sec st \<noteq> NaN"
    and "request_json st jit tr = (out, s)"
  shows "1 \<le> fetches s \<and> int (fetches s) \<le> max_retries st + 1
       \<and> length (sleeps s) + 1 = fetches s
       \<and> (\<forall>k. Suc k < fetches s \<longrightarrow>
             (case tr k of
                Fetch_raises e \<Rightarrow> True
              | Fetch_response r \<Rightarrow>
                  status r \<in> {408, 429, 500, 502, 503, 504}
                  \<or> (isl (json_body r) \<and> isl (text_body r))))
       \<and> (int (fetches s) < max_retries st + 1 \<longrightarrow>
             (case tr (fetches s - 1) of
                Fetch_raises e \<Rightarrow> False
              | Fetch_response r \<Rightarrow>
                  status r \<notin> {408, 429, 500, 502, 503, 504}
                  \<and> \<not> (isl (json_body r) \<and> isl (text_body r))))
       \<and> (case tr (fetches s - 1) of
             Fetch_raises e \<Rightarrow> out = Inl e
           | Fetch_response r \<Rightarrow>
               (case json_body r of
                  Inr d \<Rightarrow> out = Inr (d, status r)
                | Inl _ \<Rightarrow>
                    (case text_body r of
                       Inr t \<Rightarrow> out = Inr (PDict [(''raw'', PStr (take 500 t))], status r)
                     | Inl e \<Rightarrow> out = Inl e)))"
proof -
  have "request_loop st jit tr [int (fetches req_init) .. max_retries st] req_init = (out, s)"
    using assms(4) by (simp add: request_json_def req_init_def)
  moreover have "int (fetches req_init) \<le> max_retries st"
    using assms(1) by (simp add: req_init_def)
  ultimately have c: "fetches req_init < fetches s \<and> int (fetches s) \<le> max_retries st + 1
     \<and> (\<forall>k. fetches req_init \<le> k \<and> Suc k < fetches s \<longrightarrow> retry_worthy (tr k))
     \<and> out = attempt_result (tr (fetches s - 1))
     \<and> (int (fetches s) < max_retries st + 1 \<longrightarrow> \<not> retry_worthy (tr (fetches s - 1)))
     \<and> length (sleeps s) + Suc (fetches req_init) = length (sleeps req_init) + fetches s"
    using request_loop_contract
            [of "[int (fetches req_init) .. max_retries st]" req_init st jit tr out s] assms(2)
    by blast
  have rw: "retry_worthy oc \<longleftrightarrow>
        (case oc of
           Fetch_raises e \<Rightarrow> True
         | Fetch_response r \<Rightarrow>
             status r \<in> {408, 429, 500, 502, 503, 504}
             \<or> (isl (json_body r) \<and> isl (text_body r)))" for oc
    by (auto simp: retry_worthy_def attempt_result_def read_body_def retry_statuses_def
             split: fetch_outcome.splits sum.splits)
  have ar: "(case oc of
             Fetch_raises e \<Rightarrow> attempt_result oc = Inl e
           | Fetch_response r \<Rightarrow>
               (case json_body r of
                  Inr d \<Rightarrow> attempt_result oc = Inr (d, status r)
                | Inl _ \<Rightarrow>
                    (case text_body r of
                       Inr t \<Rightarrow> attempt_result oc
                                  = Inr (PDict [(''raw'', PStr (take 500 t))], status r)
                     | Inl e \<Rightarrow> attempt_result oc = Inl e)))" for oc
    by (simp add: attempt_result_def read_body_def split: fetch_outcome.splits sum.splits)
  have 1: "1 \<le> fetches s \<and> int (fetches s) \<le> max_retries st + 1
       \<and> length (sleeps s) + 1 = fetches s"
    using c by (simp add: req_init_def)
  have 2: "\<forall>k. Suc k < fetches s \<longrightarrow>
             (case tr k of
                Fetch_raises e \<Rightarrow> True
              | Fetch_response r \<Rightarrow>
                  status r \<in> {408, 429, 500, 502, 503, 504}
                  \<or> (isl (json_body r) \<and> isl (text_body r)))"
    using c by (simp add: req_init_def flip: rw)
  have 3: "int (fetches s) < max_retries st + 1 \<longrightarrow>
             (case tr (fetches s - 1) of
                Fetch_raises e \<Rightarrow> False
              | Fetch_response r \<Rightarrow>
                  status r \<notin> {408, 429, 500, 502, 503, 504}
                  \<and> \<not> (isl (json_body r) \<and> isl (text_body r)))"
    using c rw[of "tr (fetches s - 1)"] by (auto split: fetch_outcome.splits)
  have 4: "case tr (fetches s - 1) of
             Fetch_raises e \<Rightarrow> out = Inl e
           | Fetch_response r \<Rightarrow>
               (case json_body r of
                  Inr d \<Rightarrow> out = Inr (d, status r)
                | Inl _ \<Rightarrow>
                    (case text_body r of
                       Inr t \<Rightarrow> out = Inr (PDict [(''raw'', PStr (take 500 t))], status r)
                     | Inl e \<Rightarrow> out = Inl e))"
    using c ar[of "tr (fetches s - 1)"] by (auto split: fetch_outcome.splits sum.splits)
  from 1 2 3 4 show ?thesis by (intro conjI) simp_all
qed

lemma flaky_run:
  "request_json default_settings half_jitter flaky_transport =
     (Inr (busy_body, 503),
      \<lparr> last_data = busy_body, last_status = 503, last_exc = Some (PyException ''timeout''),
        fetches = 2, draws = 1, sleeps = [Finite (3 / 2)] \<rparr>)"
  by code_simp

lemma html_run:
  "fst (request_json default_settings half_jitter html_transport)
     = Inr (PDict [(''raw'', PStr ''<html>not found</html>'')], 404)
   \<and> fetches (snd (request_json default_settings half_jitter html_transport)) = 1"
  by code_simp


theorem request_json_retry_contract_witness:
  "0 \<le> max_retries default_settings \<and> max_retries default_settings \<le> 1024
   \<and> backoff_cap_sec default_settings \<noteq> NaN
   \<and> fst (request_json default_settings half_jitter flaky_transport) = Inr (busy_body, 503)
   \<and> fetches (snd (request_json default_settings half_jitter flaky_transport)) = 2
   \<and> sleeps (snd (request_json default_settings half_jitter flaky_transport)) = [Finite (3 / 2)]
   \<and> flaky_transport 0 = Fetch_raises (PyException ''timeout'')
   \<and> flaky_transport 1
       = Fetch_response \<lparr> status = 503, json_body = Inr busy_body, text_body = Inr [] \<rparr>
   \<and> fetches (snd (request_json default_settings half_jitter html_transport)) = 1
   \<and> fst (request_json default_settings half_jitter html_transport)
       = Inr (PDict [(''raw'', PStr ''<html>not found</html>'')], 404)"
proof -
  have h: "0 \<le> max_retries default_settings" "max_retries default_settings \<le> 1024"
    "backoff_cap_sec default_settings \<noteq> NaN"
    by (simp_all add: default_settings_def)
  have t: "flaky_transport 0 = Fetch_raises (PyException ''timeout'')"
    "flaky_transport 1
       = Fetch_response \<lparr> status = 503, json_body = Inr busy_body, text_body = Inr [] \<rparr>"
    by (simp_all add: flaky_transport_def)
  from request_json_retry_contract [OF h flaky_run]
  have "case flaky_transport (2 - 1) of
          Fetch_raises e \<Rightarrow> (Inr (busy_body, 503) :: exn + pyval \<times> int) = Inl e
        | Fetch_response r \<Rightarrow>
            (case json_body r of
               Inr d \<Rightarrow> (Inr (busy_body, 503) :: exn + pyval \<times> int) = Inr (d, status r)
             | Inl _ \<Rightarrow>
                 (case text_body r of
                    Inr t \<Rightarrow> (Inr (busy_body, 503) :: exn + pyval \<times> int)
                               = Inr (PDict [(''raw'', PStr (take 500 t))], status r)
                  | Inl e \<Rightarrow> (Inr (busy_body, 503) :: exn + pyval \<times> int) = Inl e))"
    by simp
  define out where "out = fst (request_json default_settings half_jitter html_transport)"
  define s where "s = snd (request_json default_settings half_jitter html_transport)"
  have f: "fetches s = 1" using html_run by (simp add: s_def)
  have "request_json default_settings half_jitter html_transport = (out, s)"
    by (simp add: out_def s_def)
  from request_json_retry_contract [OF h this]
  have "case html_transport (fetches s - 1) of
          Fetch_raises e \<Rightarrow> out = Inl e
        | Fetch_response r \<Rightarrow>
            (case json_body r of
               Inr d \<Rightarrow> out = Inr (d, status r)
             | Inl _ \<Rightarrow>
                 (case text_body r of
                    Inr t \<Rightarrow> out = Inr (PDict [(''raw'', PStr (take 500 t))], status r)
                  | Inl e \<Rightarrow> out = Inl e))"
    by blast
  then have "out = Inr (PDict [(''raw'', PStr ''<html>not found</html>'')], 404)"
    by (simp add: html_transport_def)
  then show ?thesis using h t f by (simp add: flaky_run out_def s_def)
qed

lemma busy_loop:
  "fetches s = k \<Longrightarrow> k + n = 1024 \<Longrightarrow>
   fst (request_loop patient_settings half_jitter busy_transport [int k .. 1025] s)
     = Inl (PyException ''int too large to convert to float'')
   \<and> fetches (snd (request_loop patient_settings half_jitter busy_transport [int k .. 1025] s))
     = 1025"
proof (induction n arbitrary: s k)
  case 0
  then have k: "k = 1024" by simp
  have ov: "compute_backoff_sec patient_settings j 1024
              = Inl (PyException ''int too large to convert to float'')" for j
    using float_of_int_pow2(2)[of 1024] by (simp add: compute_backoff_sec_def)
  have l: "[int k .. 1025] = [1024, 1025]" unfolding k by (simp add: upto_rec1)
  show ?case
    unfolding l using 0(1) k
    by (simp add: busy_transport_def patient_settings_def default_settings_def read_body_def
          busy_body_def retry_statuses_def backoff_sleep_def on_exception_def Let_def
          ov[unfolded patient_settings_def default_settings_def, simplified])
next
  case (Suc n)
  then have k: "k \<le> 1023" by simp
  have l: "[int k .. 1025] = int k # [int (Suc k) .. 1025]"
    using k by (simp add: upto_rec1 add.commute)
  have bs: "backoff_sleep patient_settings half_jitter (int k) s' =
           (None, s'\<lparr>draws := Suc (draws s'),
                    sleeps := sleeps s' @ [py_min (backoff_cap_sec patient_settings)
                       (Finite (nearest_double (2 ^ nat (int k) + half_jitter (draws s'))))]\<rparr>)"
    for s'
    using k by (intro backoff_sleep_ok) simp_all
  define sn where "sn = s\<lparr>fetches := Suc (fetches s), last_status := 503,
      last_data := busy_body, draws := Suc (draws s),
      sleeps := sleeps s @ [py_min (backoff_cap_sec patient_settings)
                       (Finite (nearest_double (2 ^ nat (int k) + half_jitter (draws s))))]\<rparr>"
  have step: "request_loop patient_settings half_jitter busy_transport
                (int k # [int (Suc k) .. 1025]) s
              = request_loop patient_settings half_jitter busy_transport [int (Suc k) .. 1025] sn"
    using k
    by (simp add: busy_transport_def read_body_def retry_statuses_def Let_def bs sn_def
          patient_settings_def[THEN arg_cong, of max_retries] default_settings_def)
  have "fetches sn = Suc k" using Suc.prems(1) by (simp add: sn_def)
  moreover have "Suc k + n = 1024" using Suc.prems(2) by simp
  ultimately show ?case unfolding l step by (rule Suc.IH)
qed

text \<open>
  The claim as first stated fails. A response with status 200 whose body can be read
  neither as JSON nor as text is followed by a retry, although 200 is not a retry status
  and the transport call did not throw. And with a budget of 1025 retries and a
  transport that always answers 503, the backoff before the 1025th retry raises: the
  caller gets that exception, not the last (body, status) pair.
\<close>

theorem unreadable_body_is_retried:
  "unreadable_transport 0
     = Fetch_response \<lparr> status = 200, json_body = Inl (PyException ''invalid json''),
                         text_body = Inl (PyException ''response disposed'') \<rparr>
   \<and> (200::int) \<notin> {408, 429, 500, 502, 503, 504}
   \<and> fetches (snd (request_json default_settings half_jitter unreadable_transport)) = 2
   \<and> fst (request_json default_settings half_jitter unreadable_transport)
       = Inr (PDict [(''currentStep'', PStr ''pending'')], 200)
   \<and> max_retries patient_settings = 1025
   \<and> fst (request_json patient_settings half_jitter busy_transport)
       = Inl (PyException ''int too large to convert to float'')
   \<and> fetches (snd (request_json patient_settings half_jitter busy_transport)) = 1025"
proof -
  have a: "unreadable_transport 0
     = Fetch_response \<lparr> status = 200, json_body = Inl (PyException ''invalid json''),
                         text_body = Inl (PyException ''response disposed'') \<rparr>"
    by (simp add: unreadable_transport_def)
  have b: "fetches (snd (request_json default_settings half_jitter unreadable_transport)) = 2"
    "fst (request_json default_settings half_jitter unreadable_transport)
       = Inr (PDict [(''currentStep'', PStr ''pending'')], 200)"
    by code_simp+
  have m: "max_retries patient_settings = 1025"
    by (simp add: patient_settings_def default_settings_def)
  have "request_json patient_settings half_jitter busy_transport
          = request_loop patient_settings half_jitter busy_transport [int 0 .. 1025] req_init"
    by (simp add: request_json_def m)
  moreover have "fetches req_init = 0" by (simp add: req_init_def)
  ultimately have c: "fst (request_json patient_settings half_jitter busy_transport)
       = Inl (PyException ''int too large to convert to float'')
   \<and> fetches (snd (request_json patient_settings half_jitter busy_transport)) = 1025"
    using busy_loop[of req_init 0 1024] by simp
  from a b m c show ?thesis by simp
qed


section \<open>Logs of the orchestrator\<close>

lemma do_seq_extends: "\<exists>ys. snd (do_seq w evs tr) = tr @ ys \<and> set ys \<subseteq> set evs"
proof (induction evs arbitrary: tr)
  case Nil
  then show ?case by simp
next
  case (Cons ev evs)
  show ?case
  proof (cases "outcome w tr ev")
    case None
    from Cons.IH[of "tr @ [ev]"] obtain ys where
      "snd (do_seq w evs (tr @ [ev])) = (tr @ [ev]) @ ys" "set ys \<subseteq> set evs" by blast
    then show ?thesis using None by (intro exI[of _ "ev # ys"]) auto
  next
    case (Some e)
    then show ?thesis by (intro exI[of _ "[ev]"]) simp
  qed
qed

lemma do_seq_prefix: "do_seq w evs tr = (x, tr') \<Longrightarrow> prefix tr tr'"
  using do_seq_extends[of w evs tr] by (auto simp: prefix_def)

lemma do_seq_first: "do_seq w (ev # evs) tr = (x, tr') \<Longrightarrow> prefix (tr @ [ev]) tr'"
  by (auto split: option.splits dest: do_seq_prefix)

lemma do_seq_snd_prefix: "prefix tr (snd (do_seq w evs tr))"
  using do_seq_extends[of w evs tr] by (auto simp: prefix_def)

lemma unhandled_prefix: "unhandled b e tr = (r, tr') \<Longrightarrow> prefix tr tr'"
  by (auto simp: unhandled_def split: if_splits)

lemma poll_prefix: "prefix tr (snd (poll w n tr prev))"
proof (induction n arbitrary: tr prev)
  case 0
  then show ?case by simp
next
  case (Suc n)
  show ?case
  proof (cases "do_precheck w (count_list tr E_precheck)")
    case (Inl e)
    then show ?thesis by simp
  next
    case (Inr sp)
    obtain st2 pl2 where sp: "sp = (st2, pl2)" by (cases sp)
    show ?thesis
    proof (cases "st2 \<noteq> initial_step")
      case True
      then show ?thesis using Inr sp by simp
    next
      case False
      let ?tr' = "snd (do_seq w [E_wait_network_idle] (tr @ [E_precheck])) @ [E_sleep]"
      have a: "prefix tr ?tr'"
        using do_seq_snd_prefix[of "tr @ [E_precheck]" w "[E_wait_network_idle]"]
        by (meson append_prefixD prefix_order.trans prefixI)
      have b: "prefix ?tr' (snd (poll w n ?tr' (st2, pl2)))" by (rule Suc.IH)
      have c: "prefix tr (snd (poll w n ?tr' (st2, pl2)))"
        by (rule prefix_order.trans[OF a b])
      have "poll w (Suc n) tr prev = poll w n ?tr' (st2, pl2)"
        using False Inr sp by (simp del: do_seq.simps)
      then show ?thesis using c by simp
    qed
  qed
qed

lemma submit_and_poll_prefix: "prefix tr (snd (submit_and_poll w tr))"
proof -
  obtain x tr1 where d: "do_seq w [E_human_delay, E_click_submit, E_wait_network_idle] tr = (x, tr1)"
    by (cases "do_seq w [E_human_delay, E_click_submit, E_wait_network_idle] tr")
  have p1: "prefix tr tr1" using do_seq_prefix[OF d] .
  show ?thesis
  proof (cases x)
    case (Some e)
    then show ?thesis using d p1
      by (auto simp: submit_and_poll_def unhandled_def simp del: do_seq.simps)
  next
    case None
    let ?t = "tr1 @ [E_dump_page ''after_submit'', E_page_title]"
    have "prefix tr ?t" using p1 by (simp add: prefix_prefix)
    then have p2: "prefix tr (snd (poll w 6 ?t (PNone, PDict [])))"
      using poll_prefix[of ?t w 6 "(PNone, PDict [])"] prefix_order.trans by blast
    obtain y tr2 where pl: "poll w 6 ?t (PNone, PDict []) = (y, tr2)"
      by (cases "poll w 6 ?t (PNone, PDict [])")
    then have "prefix tr tr2" using p2 by simp
    then show ?thesis using d None pl
      by (auto simp: submit_and_poll_def unhandled_def prefix_prefix simp del: do_seq.simps poll.simps
               split: sum.splits prod.splits)
  qed
qed

lemma submit_and_poll_submits:
  assumes "outcome w tr E_human_delay = None"
  shows "E_click_submit \<in> set (snd (submit_and_poll w tr))"
proof -
  obtain x tr1 where d: "do_seq w [E_human_delay, E_click_submit, E_wait_network_idle] tr = (x, tr1)"
    by (cases "do_seq w [E_human_delay, E_click_submit, E_wait_network_idle] tr")
  have "do_seq w [E_click_submit, E_wait_network_idle] (tr @ [E_human_delay]) = (x, tr1)"
    using d assms by simp
  from do_seq_first[OF this] have in1: "E_click_submit \<in> set tr1"
    by (auto simp: prefix_def)
  show ?thesis
  proof (cases x)
    case (Some e)
    then show ?thesis using d in1
      by (auto simp: submit_and_poll_def unhandled_def simp del: do_seq.simps)
  next
    case None
    let ?t = "tr1 @ [E_dump_page ''after_submit'', E_page_title]"
    obtain y tr2 where pl: "poll w 6 ?t (PNone, PDict []) = (y, tr2)"
      by (cases "poll w 6 ?t (PNone, PDict [])")
    with poll_prefix[of ?t w 6 "(PNone, PDict [])"] have "prefix ?t tr2" by simp
    then have "E_click_submit \<in> set tr2" using in1 by (auto simp: prefix_def)
    then show ?thesis using d None pl
      by (auto simp: submit_and_poll_def unhandled_def simp del: do_seq.simps poll.simps
               split: sum.splits prod.splits)
  qed
qed


lemma prefix_snoc: "prefix a b \<Longrightarrow> prefix a (b @ c)"
  by (simp add: prefix_prefix)

lemma open_page_prefix:
  "open_page w cs ps tr = Inl (r, tr') \<Longrightarrow> prefix (tr @ [E_ensure_browser]) tr'"
  "open_page w cs ps tr = Inr tr' \<Longrightarrow> prefix (tr @ [E_ensure_browser]) tr'"
proof -
  obtain x1 tr1 where d1: "do_seq w [E_ensure_browser, E_ensure_form, E_new_page] tr = (x1, tr1)"
    by (cases "do_seq w [E_ensure_browser, E_ensure_form, E_new_page] tr")
  obtain x2 tr2 where d2: "do_seq w [E_goto, E_wait_timeout] tr1 = (x2, tr2)"
    by (cases "do_seq w [E_goto, E_wait_timeout] tr1")
  obtain x3 tr3 where d3: "do_seq w [E_wait_network_idle] tr2 = (x3, tr3)"
    by (cases "do_seq w [E_wait_network_idle] tr2")
  obtain x4 tr4 where d4: "do_seq w [E_locate_form_frame] tr3 = (x4, tr4)"
    by (cases "do_seq w [E_locate_form_frame] tr3")
  let ?b = "tr @ [E_ensure_browser]"
  have p1: "prefix ?b tr1" using do_seq_first[OF d1] .
  have p2: "prefix ?b tr2" using p1 do_seq_prefix[OF d2] by (rule prefix_order.trans)
  have p3: "prefix ?b tr3" using p2 do_seq_prefix[OF d3] by (rule prefix_order.trans)
  have p4: "prefix ?b tr4" using p3 do_seq_prefix[OF d4] by (rule prefix_order.trans)
  show "open_page w cs ps tr = Inl (r, tr') \<Longrightarrow> prefix ?b tr'"
    using d1 d2 d3 d4 p1 p2 p3 p4
    by (auto simp: open_page_def Let_def unhandled_def prefix_snoc simp del: do_seq.simps
             split: option.splits if_splits)
  show "open_page w cs ps tr = Inr tr' \<Longrightarrow> prefix ?b tr'"
    using d1 d2 d3 d4 p4
    by (auto simp: open_page_def Let_def simp del: do_seq.simps
             split: option.splits if_splits)
qed

lemma fill_form_prefix:
  "fill_form w p tr = Inl (r, tr') \<Longrightarrow> prefix tr tr'"
  "fill_form w p tr = Inr tr' \<Longrightarrow> prefix tr tr'"
proof -
  let ?evs = "[E_human_delay, E_fill_text ''first_name'' (first_name p),
               E_human_delay, E_fill_text ''last_name'' (last_name p),
               E_human_delay, E_fill_text ''email'' (email p)]"
  obtain x1 tr1 where d1: "do_seq w ?evs tr = (x1, tr1)" by (cases "do_seq w ?evs tr")
  have p1: "prefix tr tr1" using do_seq_prefix[OF d1] .
  show "fill_form w p tr = Inl (r, tr') \<Longrightarrow> prefix tr tr'"
    using d1 p1
    by (auto simp: fill_form_def Let_def unhandled_def prefix_snoc simp del: do_seq.simps
             split: option.splits)
  define tr2 where "tr2 = (case do_seq w [E_human_delay, E_fill_org (school_name p)] tr1 of
                        (Some e, t) \<Rightarrow> t @ [E_dump_page ''fill_org_exception'']
                      | (None, t) \<Rightarrow> t)"
  have "prefix tr1 tr2"
    using do_seq_snd_prefix[of tr1 w "[E_human_delay, E_fill_org (school_name p)]"]
    unfolding tr2_def by (auto simp: prefix_snoc simp del: do_seq.simps split: prod.splits option.splits)
  with p1 have p2: "prefix tr tr2" by (rule prefix_order.trans)
  define tr3 where "tr3 = snd (do_seq w [E_human_delay, E_fill_birth_date (birth_date p)] tr2)"
  have "prefix tr2 tr3" unfolding tr3_def by (rule do_seq_snd_prefix)
  with p2 have p3: "prefix tr tr3" by (rule prefix_order.trans)
  define tr4 where "tr4 = snd (do_seq w [E_human_delay, E_check_checkboxes] tr3)"
  have "prefix tr3 tr4" unfolding tr4_def by (rule do_seq_snd_prefix)
  with p3 have p4: "prefix tr tr4" by (rule prefix_order.trans)
  show "fill_form w p tr = Inr tr' \<Longrightarrow> prefix tr tr'"
    using d1 p4 unfolding tr4_def tr3_def tr2_def
    by (auto simp: fill_form_def Let_def simp del: do_seq.simps split: option.splits)
qed

lemma first_dump_prefix: "prefix tr (snd (first_dump w tr))"
  by (auto simp: first_dump_def split: option.splits sum.splits)

lemma before_gate_starts:
  assumes "do_precheck w 0 = Inr (initial_step, pre)"
  shows "before_gate w p = Inl (r, tr) \<Longrightarrow> prefix [E_precheck, E_ensure_browser] tr"
    and "before_gate w p = Inr (data, tr) \<Longrightarrow> prefix [E_precheck, E_ensure_browser] tr"
proof -
  let ?b = "[E_precheck, E_ensure_browser]"
  have o1: "prefix ?b t" if "open_page w initial_step pre [E_precheck] = Inl (r', t)" for r' t
    using open_page_prefix(1)[OF that] by simp
  have o2: "prefix ?b t" if "open_page w initial_step pre [E_precheck] = Inr t" for t
    using open_page_prefix(2)[OF that] by simp
  have f1: "prefix ?b t'" if "open_page w initial_step pre [E_precheck] = Inr t"
      "fill_form w p t = Inl (r', t')" for t t' r'
    using o2[OF that(1)] fill_form_prefix(1)[OF that(2)] by (rule prefix_order.trans)
  have f2: "prefix ?b t'" if "open_page w initial_step pre [E_precheck] = Inr t"
      "fill_form w p t = Inr t'" for t t'
    using o2[OF that(1)] fill_form_prefix(2)[OF that(2)] by (rule prefix_order.trans)
  have f3: "prefix ?b (snd (first_dump w t'))" if "open_page w initial_step pre [E_precheck] = Inr t"
      "fill_form w p t = Inr t'" for t t'
    using f2[OF that] first_dump_prefix[of t' w] by (rule prefix_order.trans)
  show "before_gate w p = Inl (r, tr) \<Longrightarrow> prefix ?b tr"
  proof -
    assume a: "before_gate w p = Inl (r, tr)"
    show ?thesis
    proof (cases "open_page w initial_step pre [E_precheck]")
      case (Inl rt)
      then show ?thesis using a assms o1[of "fst rt" "snd rt"]
        by (auto simp: before_gate_def Let_def)
    next
      case (Inr t)
      note op = this
      show ?thesis
      proof (cases "fill_form w p t")
        case (Inl rt)
        then show ?thesis using a assms op f1[of t "fst rt" "snd rt"]
          by (auto simp: before_gate_def Let_def)
      next
        case (Inr t')
        then show ?thesis using a assms op f3[of t t']
          by (auto simp: before_gate_def Let_def prefix_snoc split: prod.splits if_splits)
      qed
    qed
  qed
  show "before_gate w p = Inr (data, tr) \<Longrightarrow> prefix ?b tr"
  proof -
    assume a: "before_gate w p = Inr (data, tr)"
    then obtain t t' where "open_page w initial_step pre [E_precheck] = Inr t"
      "fill_form w p t = Inr t'" "tr = snd (first_dump w t')"
      using assms
      by (auto simp: before_gate_def Let_def split: sum.splits prod.splits if_splits)
    then show ?thesis using f3 by simp
  qed
qed

lemma do_seq_count:
  "do_seq w evs tr = (x, tr') \<Longrightarrow> ev \<notin> set evs \<Longrightarrow> count_list tr' ev = count_list tr ev"
proof -
  assume a: "do_seq w evs tr = (x, tr')" and b: "ev \<notin> set evs"
  from do_seq_extends[of w evs tr] a obtain ys where "tr' = tr @ ys" "set ys \<subseteq> set evs"
    by auto
  then show ?thesis using b by (auto simp: count_list_0_iff)
qed

lemma do_seq_snd_count:
  "ev \<notin> set evs \<Longrightarrow> count_list (snd (do_seq w evs tr)) ev = count_list tr ev"
  using do_seq_count[of w evs tr "fst (do_seq w evs tr)" "snd (do_seq w evs tr)" ev] by simp

lemma open_page_count:
  assumes "open_page w cs ps tr = Inr tr'" and "ev = E_click_submit \<or> ev = E_dump_form_ready"
  shows "count_list tr' ev = count_list tr ev"
proof -
  from assms(1) obtain tr1 tr2 tr3 where
    d1: "do_seq w [E_ensure_browser, E_ensure_form, E_new_page] tr = (None, tr1)" and
    d2: "do_seq w [E_goto, E_wait_timeout] tr1 = (None, tr2)" and
    d3: "do_seq w [E_wait_network_idle] tr2 = (None, tr3)" and
    d4: "do_seq w [E_locate_form_frame] tr3 = (None, tr')"
    by (auto simp: open_page_def Let_def simp del: do_seq.simps
             split: prod.splits option.splits if_splits)
  show ?thesis
    using do_seq_count[OF d1, of ev] do_seq_count[OF d2, of ev] do_seq_count[OF d3, of ev]
      do_seq_count[OF d4, of ev] assms(2) by auto
qed

lemma fill_form_count:
  assumes "fill_form w p tr = Inr tr'" and "ev = E_click_submit \<or> ev = E_dump_form_ready"
  shows "count_list tr' ev = count_list tr ev"
proof -
  let ?evs = "[E_human_delay, E_fill_text ''first_name'' (first_name p),
               E_human_delay, E_fill_text ''last_name'' (last_name p),
               E_human_delay, E_fill_text ''email'' (email p)]"
  obtain x1 tr1 where d1: "do_seq w ?evs tr = (x1, tr1)" by (cases "do_seq w ?evs tr")
  have n1: "count_list tr1 ev = count_list tr ev" using do_seq_count[OF d1, of ev] assms(2) by auto
  define tr2 where "tr2 = (case do_seq w [E_human_delay, E_fill_org (school_name p)] tr1 of
                        (Some e, t) \<Rightarrow> t @ [E_dump_page ''fill_org_exception'']
                      | (None, t) \<Rightarrow> t)"
  obtain x2 t2 where d2: "do_seq w [E_human_delay, E_fill_org (school_name p)] tr1 = (x2, t2)"
    by (cases "do_seq w [E_human_delay, E_fill_org (school_name p)] tr1")
  have "count_list t2 ev = count_list tr1 ev" using do_seq_count[OF d2, of ev] assms(2) by auto
  then have n2: "count_list tr2 ev = count_list tr ev"
    unfolding tr2_def d2 using n1 assms(2) by (auto split: option.splits)
  define tr3 where "tr3 = snd (do_seq w [E_human_delay, E_fill_birth_date (birth_date p)] tr2)"
  have n3: "count_list tr3 ev = count_list tr ev"
    unfolding tr3_def using n2 assms(2) by (subst do_seq_snd_count) auto
  define tr4 where "tr4 = snd (do_seq w [E_human_delay, E_check_checkboxes] tr3)"
  have n4: "count_list tr4 ev = count_list tr ev"
    unfolding tr4_def using n3 assms(2) by (subst do_seq_snd_count) auto
  show ?thesis
    using assms(1) d1 n4 unfolding tr4_def tr3_def tr2_def
    by (auto simp: fill_form_def Let_def simp del: do_seq.simps split: option.splits)
qed

lemma before_gate_shape:
  assumes "before_gate w p = Inr (data, tr)"
  shows "\<exists>tr2. first_dump w tr2 = (data, tr) \<and> count_list tr2 E_click_submit = 0
               \<and> count_list tr2 E_dump_form_ready = 0"
proof -
  from assms obtain cs ps tr1 tr2 where
    o: "open_page w cs ps [E_precheck] = Inr tr1" and
    f: "fill_form w p tr1 = Inr tr2" and
    d: "first_dump w tr2 = (data, tr)"
    by (auto simp: before_gate_def Let_def split: sum.splits prod.splits if_splits)
  have "count_list tr2 E_click_submit = 0"
    using open_page_count[OF o, of E_click_submit] fill_form_count[OF f, of E_click_submit]
    by simp
  moreover have "count_list tr2 E_dump_form_ready = 0"
    using open_page_count[OF o, of E_dump_form_ready]
      fill_form_count[OF f, of E_dump_form_ready] by simp
  ultimately show ?thesis using d by blast
qed

lemma before_gate_no_submit:
  assumes "before_gate w p = Inr (data, tr)"
  shows "E_click_submit \<notin> set tr"
proof -
  from before_gate_shape[OF assms] obtain tr2 where
    "first_dump w tr2 = (data, tr)" "count_list tr2 E_click_submit = 0" by blast
  then show ?thesis
    by (auto simp: first_dump_def count_list_0_iff split: option.splits sum.splits)
qed

lemma before_gate_data:
  assumes "before_gate w p = Inr (data, tr)"
  shows "data = (case dump_form_ready w of
                   None \<Rightarrow> No_dict
                 | Some dump \<Rightarrow> (case dump 0 of Inl e \<Rightarrow> No_dict | Inr d \<Rightarrow> d))"
    and "count_list tr E_dump_form_ready = (if dump_form_ready w = None then 0 else 1)"
proof -
  from before_gate_shape[OF assms] obtain tr2 where
    a: "first_dump w tr2 = (data, tr)" "count_list tr2 E_dump_form_ready = 0" by blast
  show "data = (case dump_form_ready w of
                   None \<Rightarrow> No_dict
                 | Some dump \<Rightarrow> (case dump 0 of Inl e \<Rightarrow> No_dict | Inr d \<Rightarrow> d))"
    using a by (auto simp: first_dump_def split: option.splits sum.splits)
  show "count_list tr E_dump_form_ready = (if dump_form_ready w = None then 0 else 1)"
    using a by (auto simp: first_dump_def split: option.splits sum.splits)
qed

lemma remediate_facts:
  assumes "remediate w tr v0 = (data1, v, tr1)"
  shows "prefix tr tr1" and "E_click_submit \<notin> set tr \<Longrightarrow> E_click_submit \<notin> set tr1"
    and "data1 = Dict d \<Longrightarrow> v = d"
proof -
  obtain x t where d: "do_seq w [E_human_delay, E_check_checkboxes] tr = (x, t)"
    by (cases "do_seq w [E_human_delay, E_check_checkboxes] tr")
  have p: "prefix tr t" using do_seq_prefix[OF d] .
  have k: "E_click_submit \<notin> set tr \<Longrightarrow> E_click_submit \<notin> set t"
    using do_seq_count[OF d, of E_click_submit] by (simp add: count_list_0_iff)
  show "prefix tr tr1"
    using assms d p
    by (auto simp: remediate_def prefix_snoc simp del: do_seq.simps
             split: option.splits sum.splits dumpval.splits)
  show "E_click_submit \<notin> set tr \<Longrightarrow> E_click_submit \<notin> set tr1"
    using assms d k
    by (auto simp: remediate_def simp del: do_seq.simps
             split: option.splits sum.splits dumpval.splits)
  show "data1 = Dict d \<Longrightarrow> v = d"
    using assms d
    by (auto simp: remediate_def simp del: do_seq.simps
             split: option.splits sum.splits dumpval.splits)
qed

lemma judged_facts:
  assumes "judged w tr v0 = (data1, v, tr1)"
  shows "prefix tr tr1" and "E_click_submit \<notin> set tr \<Longrightarrow> E_click_submit \<notin> set tr1"
    and "data1 = Dict d \<Longrightarrow> v = d"
proof -
  show "prefix tr tr1"
    using assms remediate_facts(1)[of w tr v0 data1 v tr1]
    by (auto simp: judged_def split: if_splits)
  show "E_click_submit \<notin> set tr \<Longrightarrow> E_click_submit \<notin> set tr1"
    using assms remediate_facts(2)[of w tr v0 data1 v tr1]
    by (auto simp: judged_def split: if_splits)
  show "data1 = Dict d \<Longrightarrow> v = d"
    using assms remediate_facts(3)[of w tr v0 data1 v tr1 d]
    by (auto simp: judged_def split: if_splits)
qed

lemma submit_gate_prefix: "prefix tr (snd (submit_gate w tr data))"
proof (cases data)
  case No_dict
  then show ?thesis by (simp add: submit_gate_def)
next
  case (Dict v0)
  obtain data1 v tr1 where j: "judged w tr v0 = (data1, v, tr1)"
    by (cases "judged w tr v0") auto
  from judged_facts(1)[OF j] show ?thesis
    using Dict j by (auto simp: submit_gate_def Let_def prefix_snoc split: dumpval.splits)
qed

lemma run_starts:
  assumes "do_precheck w 0 = Inr (initial_step, pre)"
  shows "prefix [E_precheck, E_ensure_browser] (snd (run w p))"
proof (cases "before_gate w p")
  case (Inl rt)
  then show ?thesis using before_gate_starts(1)[OF assms, of p "fst rt" "snd rt"]
    by (simp add: run_def)
next
  case (Inr dt)
  obtain data tr where dt: "dt = (data, tr)" by (cases dt)
  have a: "prefix [E_precheck, E_ensure_browser] tr"
    using before_gate_starts(2)[OF assms, of p data tr] Inr dt by simp
  obtain g tr1 where g: "submit_gate w tr data = (g, tr1)" by (cases "submit_gate w tr data")
  have b: "prefix tr tr1" using submit_gate_prefix[of tr w data] g by simp
  have c: "prefix [E_precheck, E_ensure_browser] tr1" by (rule prefix_order.trans[OF a b])
  have d: "prefix [E_precheck, E_ensure_browser] (snd (submit_and_poll w tr1))"
    by (rule prefix_order.trans[OF c submit_and_poll_prefix])
  show ?thesis using Inr dt g c d by (auto simp: run_def split: gate_outcome.splits)
qed


lemma gate_ok_iff:
  "gate_ok d \<longleftrightarrow>
     (py_strip (or_empty (schoolId d)) \<noteq> [] \<or> py_strip (or_empty (schoolText d)) \<noteq> [])
     \<and> consentChecked d = Some True \<and> ariaInvalidCount d = 0"
  by (auto simp: gate_ok_def school_ok_def consent_ok_def aria_ok_def str_of_consent_def
        py_lower_def py_lower_char_def Let_def split: option.splits bool.splits)

text \<open>
  C2. When the first precheck returns a step other than \<open>collectStudentPersonalInfo\<close> and
  the force-ui override is off, the run ends at once: its success is \<open>step \<noteq> "error"\<close>,
  its message names the step, and the only call it has made is that precheck: no
  navigation, no form fill, no submit.
\<close>

theorem precheck_gate_ends_run:
  assumes "do_precheck w 0 = Inr (step, pre)"
      and "step \<noteq> initial_step"
      and "\<not> env_flag_on (env_force_ui w)"
  shows "run w p =
           (\<lparr> success = (step \<noteq> PStr ''error''), message = Msg_precheck_step step,
              form_values = None,
              status_info = Some (PDict [(''currentStep'', step), (''precheck'', pre)]) \<rparr>,
            [E_precheck])"
  using assms by (simp add: run_def before_gate_def)

theorem precheck_gate_ends_run_witness:
  "do_precheck (precheck_world (PStr ''error'')) 0 = Inr (PStr ''error'', PDict [])
   \<and> PStr ''error'' \<noteq> initial_step
   \<and> \<not> env_flag_on (env_force_ui (precheck_world (PStr ''error'')))
   \<and> success (fst (run (precheck_world (PStr ''error'')) student)) = False
   \<and> message (fst (run (precheck_world (PStr ''error'')) student)) = Msg_precheck_step (PStr ''error'')
   \<and> snd (run (precheck_world (PStr ''error'')) student) = [E_precheck]
   \<and> success (fst (run (precheck_world (PStr ''pending'')) student)) = True"
proof -
  have a: "do_precheck (precheck_world s) 0 = Inr (s, PDict [])" for s
    by (simp add: precheck_world_def)
  have b: "PStr ''error'' \<noteq> initial_step" "PStr ''pending'' \<noteq> initial_step"
    by (simp_all add: initial_step_def)
  have c: "\<not> env_flag_on (env_force_ui (precheck_world s))" for s
    by (simp add: precheck_world_def calm_world_def env_flag_on_def py_strip_def py_lower_def)
  show ?thesis
    using precheck_gate_ends_run[OF a b(1) c, of student]
      precheck_gate_ends_run[OF a b(2) c, of student] a b c
    by simp
qed

text \<open>
  C10. For a precheck payload that is a dictionary without a \<open>currentStep\<close> entry,
  \<open>precheck\<close> returns the initial step \<open>collectStudentPersonalInfo\<close> with the payload, and
  a run whose first precheck is this one goes on to the browser stage: the call after the
  precheck is \<open>ensure_browser\<close>.
\<close>

theorem missing_step_is_initial:
  assumes "map_of d ''currentStep'' = None"
      and "do_precheck w 0 = svc_precheck (Inr (PDict d, code))"
  shows "svc_precheck (Inr (PDict d, code)) = Inr (initial_step, PDict d)
       \<and> prefix [E_precheck, E_ensure_browser] (snd (run w p))"
proof -
  have s: "svc_precheck (Inr (PDict d, code)) = Inr (initial_step, PDict d)"
    using assms(1) by (simp add: svc_precheck_def dict_get_def initial_step_def)
  then have "do_precheck w 0 = Inr (initial_step, PDict d)" using assms(2) by simp
  from run_starts[OF this] s show ?thesis by simp
qed

theorem missing_step_is_initial_witness:
  "map_of [(''locale'', PStr ''en-US'')] ''currentStep'' = None
   \<and> do_precheck bare_world 0 = svc_precheck (Inr (PDict [(''locale'', PStr ''en-US'')], 200))
   \<and> svc_precheck (Inr (PDict [(''locale'', PStr ''en-US'')], 200))
       = Inr (initial_step, PDict [(''locale'', PStr ''en-US'')])
   \<and> prefix [E_precheck, E_ensure_browser] (snd (run bare_world student))
   \<and> E_click_submit \<in> set (snd (run bare_world student))"
proof -
  have a: "map_of [(''locale'', PStr ''en-US'')] ''currentStep'' = None" by simp
  have b: "do_precheck bare_world 0 = svc_precheck (Inr (PDict [(''locale'', PStr ''en-US'')], 200))"
    by (simp add: bare_world_def bare_payload_def)
  have c: "E_click_submit \<in> set (snd (run bare_world student))"
    by code_simp
  from missing_step_is_initial[OF a b, of student] a b c show ?thesis by simp
qed


lemma run_from_gate:
  assumes "before_gate w p = Inr (data, tr)"
  shows "run w p = (case submit_gate w tr data of
                      (Gate_abort r, tr1) \<Rightarrow> (r, tr1)
                    | (Gate_proceed, tr1) \<Rightarrow> submit_and_poll w tr1)"
  using assms by (simp add: run_def)

lemma py_strip_edges:
  "py_strip s = [] \<or> (\<not> py_isspace (hd (py_strip s)) \<and> \<not> py_isspace (last (py_strip s)))"
proof -
  define u where "u = dropWhile py_isspace s"
  define v where "v = dropWhile py_isspace (rev u)"
  have t: "py_strip s = rev v" by (simp add: py_strip_def u_def v_def)
  show ?thesis
  proof (cases "v = []")
    case True
    then show ?thesis by (simp add: t)
  next
    case False
    have hv: "\<not> py_isspace (hd v)" using False unfolding v_def by (rule hd_dropWhile)
    have "\<exists>ws. rev u = ws @ v"
      unfolding v_def by (metis takeWhile_dropWhile_id)
    then obtain ws where ws: "rev u = ws @ v" by blast
    then have "last (rev u) = last v" using False by simp
    moreover have "u \<noteq> []" using ws False by auto
    ultimately have "last v = hd u" by (simp add: last_rev)
    moreover have "\<not> py_isspace (hd u)" using \<open>u \<noteq> []\<close> unfolding u_def by (rule hd_dropWhile)
    ultimately have "\<not> py_isspace (last v)" by simp
    then show ?thesis using hv False by (simp add: t hd_rev last_rev)
  qed
qed

lemma py_strip_fixed:
  assumes "t \<noteq> []" and "\<not> py_isspace (hd t)" and "\<not> py_isspace (last t)"
  shows "py_strip t = t"
proof -
  have 1: "dropWhile py_isspace t = t" using assms(1,2) by (cases t) simp_all
  have "rev t \<noteq> []" "\<not> py_isspace (hd (rev t))" using assms(1,3) by (simp_all add: hd_rev)
  then have 2: "dropWhile py_isspace (rev t) = rev t" by (cases "rev t") simp_all
  show ?thesis by (simp add: py_strip_def 1 2)
qed

lemma py_strip_idem: "py_strip (py_strip s) = py_strip s"
proof (cases "py_strip s = []")
  case True
  have "py_strip [] = []" by (simp add: py_strip_def)
  then show ?thesis by (simp only: True)
next
  case False
  then show ?thesis using py_strip_edges[of s] by (intro py_strip_fixed) simp_all
qed

lemma py_strip_nonblank: "py_strip s \<noteq> [] \<longleftrightarrow> (\<exists>c \<in> set s. \<not> py_isspace c)"
proof -
  have "py_strip s = [] \<longleftrightarrow> dropWhile py_isspace s = []"
  proof
    assume "py_strip s = []"
    then have "dropWhile py_isspace (rev (dropWhile py_isspace s)) = []"
      by (simp add: py_strip_def)
    then have a: "\<forall>c \<in> set (dropWhile py_isspace s). py_isspace c"
      by (simp add: dropWhile_eq_Nil_conv)
    show "dropWhile py_isspace s = []"
    proof (rule ccontr)
      assume n: "dropWhile py_isspace s \<noteq> []"
      then have "\<not> py_isspace (hd (dropWhile py_isspace s))" by (rule hd_dropWhile)
      moreover have "hd (dropWhile py_isspace s) \<in> set (dropWhile py_isspace s)"
        using n by simp
      ultimately show False using a by blast
    qed
  next
    assume e: "dropWhile py_isspace s = []"
    show "py_strip s = []" unfolding py_strip_def e by simp
  qed
  moreover have "dropWhile py_isspace s = [] \<longleftrightarrow> (\<forall>c \<in> set s. py_isspace c)"
    by (rule dropWhile_eq_Nil_conv)
  ultimately show ?thesis by blast
qed

lemma clean_strip: "py_strip s \<noteq> [] \<Longrightarrow> clean (py_strip s)"
  by (simp add: clean_def py_strip_idem)

lemma stripped_read_clean: "stripped_read p = Some t \<Longrightarrow> clean t"
  by (cases p rule: stripped_read.cases) (auto simp: clean_strip split: if_splits)

lemma script_read_nonempty: "script_read p = Some t \<Longrightarrow> t \<noteq> []"
  by (cases p rule: script_read.cases) (auto split: if_splits)

lemma first_some_mem: "first_some xs = Some t \<Longrightarrow> Some t \<in> set xs"
  by (induction xs rule: first_some.induct) auto

lemma first_stripped_clean: "first_stripped e = Some t \<Longrightarrow> clean t"
proof -
  assume a: "first_stripped e = Some t"
  then obtain x y where "Some t \<in> set [stripped_read x, stripped_read y]"
    by (auto simp: first_stripped_def split: option.splits prod.splits dest: first_some_mem)
  then have "stripped_read x = Some t \<or> stripped_read y = Some t" by auto
  then show "clean t" using stripped_read_clean by blast
qed


lemma built_text_clean:
  assumes "schoolText (dump_form_ready_on pg) = Some t"
  shows "clean t"
proof -
  have t: "built_school_text pg = Some t" using assms by (simp add: dump_form_ready_on_def)
  show ?thesis
  proof (cases "first_stripped (selected_name_text pg)")
    case None
    then have "first_some [first_stripped (school_text_field pg),
                           first_stripped (school_text_node pg)] = Some t"
      using t by (simp add: built_school_text_def)
    then have "first_stripped (school_text_field pg) = Some t
             \<or> first_stripped (school_text_node pg) = Some t"
      by (auto dest: first_some_mem)
    then show ?thesis using first_stripped_clean by blast
  next
    case (Some name)
    then have cn: "clean name" by (rule first_stripped_clean)
    then have n: "py_strip name = name" "name \<noteq> []" by (simp_all add: clean_def)
    define l where "l = py_strip (or_empty (first_stripped (selected_location_text pg)))"
    have "\<exists>c \<in> set name. \<not> py_isspace c" using n py_strip_nonblank[of name] by simp
    then have "\<exists>c \<in> set (name @ '' '' @ l). \<not> py_isspace c" by auto
    then have nb: "py_strip (name @ '' '' @ l) \<noteq> []" by (simp only: py_strip_nonblank)
    then have cj: "clean (py_strip (name @ '' '' @ l))" by (rule clean_strip)
    have "t = name \<or> t = py_strip (name @ '' '' @ l)"
      using t Some n nb
      by (auto simp: built_school_text_def Let_def l_def split: if_splits)
    then show ?thesis using cn cj by auto
  qed
qed

lemma gate_on_snapshot:
  "gate_ok (dump_form_ready_on pg) \<longleftrightarrow>
     (py_strip (or_empty (schoolId (dump_form_ready_on pg))) \<noteq> []
        \<or> or_empty (schoolText (dump_form_ready_on pg)) \<noteq> [])
     \<and> consentChecked (dump_form_ready_on pg) = Some True
     \<and> ariaInvalidCount (dump_form_ready_on pg) = 0"
proof -
  have "py_strip (or_empty (schoolText (dump_form_ready_on pg)))
          = or_empty (schoolText (dump_form_ready_on pg))"
  proof (cases "schoolText (dump_form_ready_on pg)")
    case None
    then show ?thesis by (simp add: or_empty_def py_strip_def)
  next
    case (Some t)
    then show ?thesis using built_text_clean[OF Some] by (simp add: or_empty_def clean_def)
  qed
  then show ?thesis by (simp add: gate_ok_iff)
qed


lemma wired_first_snapshot:
  assumes "dump_form_ready w = snapshot_of_pages pages" and "before_gate w p = Inr (data, tr)"
  shows "data = Dict (dump_form_ready_on (pages 0))" and "count_list tr E_dump_form_ready = 1"
  using before_gate_data[OF assms(2)] assms(1) by (simp_all add: snapshot_of_pages_def)

lemma wired_judged:
  assumes "dump_form_ready w = snapshot_of_pages pages"
    and "count_list tr E_dump_form_ready = 1"
  shows "\<exists>d tr1. judged w tr v0 = (Dict d, d, tr1)
           \<and> (d = v0 \<or> d = dump_form_ready_on (pages 1))
           \<and> (consentChecked v0 = Some True \<longrightarrow> d = v0)"
proof (cases "consentChecked v0 = Some True")
  case True
  then show ?thesis by (simp add: judged_def)
next
  case False
  obtain x t where d: "do_seq w [E_human_delay, E_check_checkboxes] tr = (x, t)"
    by (cases "do_seq w [E_human_delay, E_check_checkboxes] tr")
  have c: "count_list t E_dump_form_ready = 1"
    using do_seq_count[OF d, of E_dump_form_ready] assms(2) by simp
  show ?thesis
  proof (cases x)
    case None
    then have "judged w tr v0 = (Dict (dump_form_ready_on (pages 1)),
                                 dump_form_ready_on (pages 1), t @ [E_dump_form_ready])"
      using False d c assms(1)
      by (simp add: judged_def remediate_def snapshot_of_pages_def del: do_seq.simps)
    then show ?thesis using False by simp
  next
    case (Some e)
    then have "judged w tr v0 = (Dict v0, v0, t)"
      using False d by (simp add: judged_def remediate_def del: do_seq.simps)
    then show ?thesis by simp
  qed
qed

lemma judged_gate_run:
  assumes "before_gate w p = Inr (Dict v0, tr)"
      and "judged w tr v0 = (Dict d, v, tr1)"
  shows "gate_ok d \<longrightarrow> run w p = submit_and_poll w tr1"
    and "gate_ok d \<and> outcome w tr1 E_human_delay = None
            \<longrightarrow> E_click_submit \<in> set (snd (run w p))"
    and "\<not> gate_ok d \<longrightarrow>
            \<not> success (fst (run w p)) \<and> form_values (fst (run w p)) = Some (Dict d)
            \<and> E_click_submit \<notin> set (snd (run w p))"
proof -
  have vd: "v = d" using judged_facts(3)[OF assms(2)] by simp
  have ns: "E_click_submit \<notin> set tr1"
    using judged_facts(2)[OF assms(2)] before_gate_no_submit[OF assms(1)] by simp
  have pass: "run w p = submit_and_poll w tr1" if "gate_ok d"
    using that assms(2) vd by (simp add: run_from_gate[OF assms(1)] submit_gate_def)
  have fail: "run w p =
      (\<lparr> success = False,
         message = Msg_pre_submit_failed (school_ok d) (consent_ok d) (aria_ok d)
                     (schoolId d) (schoolText d) (consentChecked d) (ariaInvalidCount d),
         form_values = Some (Dict d),
         status_info = Some (PDict [(''currentStep'', initial_step)]) \<rparr>,
       tr1 @ [E_dump_page ''pre_submit_validation_failed''])" if "\<not> gate_ok d"
    using that assms(2) vd by (simp add: run_from_gate[OF assms(1)] submit_gate_def)
  show "gate_ok d \<longrightarrow> run w p = submit_and_poll w tr1" using pass by blast
  show "gate_ok d \<and> outcome w tr1 E_human_delay = None
            \<longrightarrow> E_click_submit \<in> set (snd (run w p))"
    using pass submit_and_poll_submits[of w tr1] by auto
  show "\<not> gate_ok d \<longrightarrow>
            \<not> success (fst (run w p)) \<and> form_values (fst (run w p)) = Some (Dict d)
            \<and> E_click_submit \<notin> set (snd (run w p))"
    using fail ns by auto
qed

text \<open>
  C1, as amended. For every snapshot that \<open>dump_form_ready\<close> builds from a page, the gate
  passes if and only if the school id is non-empty once surrounding whitespace is
  stripped or the school text is non-empty, the consent entry is \<open>True\<close> and the invalid
  count is 0. In a run whose snapshot function is \<open>dump_form_ready\<close> and that reaches the
  gate, the gate judges the first snapshot, or the second one when consent read as
  unconfirmed and the remediation pass got as far as a new snapshot. When the judged
  snapshot passes, the run goes on to the submit stage (and invokes the submit control
  unless the pacing delay before it raises); when it fails, the run returns a failure
  carrying that snapshot and never invokes the submit control.
\<close>

theorem submit_gate_decides:
  assumes "dump_form_ready w = snapshot_of_pages pages"
      and "before_gate w p = Inr (data, tr)"
  shows "(gate_ok (dump_form_ready_on pg) \<longleftrightarrow>
            (py_strip (or_empty (schoolId (dump_form_ready_on pg))) \<noteq> []
               \<or> or_empty (schoolText (dump_form_ready_on pg)) \<noteq> [])
            \<and> consentChecked (dump_form_ready_on pg) = Some True
            \<and> ariaInvalidCount (dump_form_ready_on pg) = 0)
       \<and> data = Dict (dump_form_ready_on (pages 0))
       \<and> (\<exists>d tr1. judged w tr (dump_form_ready_on (pages 0)) = (Dict d, d, tr1)
             \<and> (d = dump_form_ready_on (pages 0) \<or> d = dump_form_ready_on (pages 1))
             \<and> (consentChecked (dump_form_ready_on (pages 0)) = Some True
                  \<longrightarrow> d = dump_form_ready_on (pages 0))
             \<and> (gate_ok d \<longrightarrow> run w p = submit_and_poll w tr1)
             \<and> (gate_ok d \<and> outcome w tr1 E_human_delay = None
                  \<longrightarrow> E_click_submit \<in> set (snd (run w p)))
             \<and> (\<not> gate_ok d \<longrightarrow>
                  \<not> success (fst (run w p)) \<and> form_values (fst (run w p)) = Some (Dict d)
                  \<and> E_click_submit \<notin> set (snd (run w p))))"
proof -
  let ?v0 = "dump_form_ready_on (pages 0)"
  have data: "data = Dict ?v0" and cnt: "count_list tr E_dump_form_ready = 1"
    using wired_first_snapshot[OF assms] by simp_all
  from wired_judged[OF assms(1) cnt, of ?v0] obtain d tr1 where
    j: "judged w tr ?v0 = (Dict d, d, tr1)"
       "d = ?v0 \<or> d = dump_form_ready_on (pages 1)"
       "consentChecked ?v0 = Some True \<longrightarrow> d = ?v0"
    by blast
  have bg: "before_gate w p = Inr (Dict ?v0, tr)" using assms(2) data by simp
  note r = judged_gate_run[OF bg j(1)]
  have "\<exists>d tr1. judged w tr ?v0 = (Dict d, d, tr1)
             \<and> (d = ?v0 \<or> d = dump_form_ready_on (pages 1))
             \<and> (consentChecked ?v0 = Some True \<longrightarrow> d = ?v0)
             \<and> (gate_ok d \<longrightarrow> run w p = submit_and_poll w tr1)
             \<and> (gate_ok d \<and> outcome w tr1 E_human_delay = None
                  \<longrightarrow> E_click_submit \<in> set (snd (run w p)))
             \<and> (\<not> gate_ok d \<longrightarrow>
                  \<not> success (fst (run w p)) \<and> form_values (fst (run w p)) = Some (Dict d)
                  \<and> E_click_submit \<notin> set (snd (run w p)))"
    using j r by blast
  with gate_on_snapshot[of pg] data show ?thesis by (intro conjI)
qed

theorem submit_gate_decides_witness:
  "dump_form_ready_on acme_form
     = \<lparr> schoolId = None, schoolText = Some ''Acme University'',
         consentChecked = Some True, ariaInvalidCount = 0 \<rparr>
   \<and> gate_ok (dump_form_ready_on acme_form)
   \<and> E_click_submit \<in> set (snd (run (dump_world (snapshot_of_pages (\<lambda>k. acme_form))) student))
   \<and> dump_form_ready_on empty_form
     = \<lparr> schoolId = None, schoolText = None,
         consentChecked = Some True, ariaInvalidCount = 0 \<rparr>
   \<and> \<not> gate_ok (dump_form_ready_on empty_form)
   \<and> \<not> success (fst (run (dump_world (snapshot_of_pages (\<lambda>k. empty_form))) student))
   \<and> E_click_submit \<notin> set (snd (run (dump_world (snapshot_of_pages (\<lambda>k. empty_form))) student))
   \<and> consentChecked (dump_form_ready_on (late_consent_pages 0)) = None
   \<and> E_click_submit \<in> set (snd (run (dump_world (snapshot_of_pages late_consent_pages)) student))
   \<and> gate_ok acme_snapshot \<and> \<not> gate_ok no_org_snapshot"
proof -
  let ?t = "filled_trace @ [E_dump_form_ready]"
  let ?wa = "dump_world (snapshot_of_pages (\<lambda>k. acme_form))"
  let ?we = "dump_world (snapshot_of_pages (\<lambda>k. empty_form))"
  let ?wl = "dump_world (snapshot_of_pages late_consent_pages)"
  have va: "dump_form_ready_on acme_form
     = \<lparr> schoolId = None, schoolText = Some ''Acme University'',
         consentChecked = Some True, ariaInvalidCount = 0 \<rparr>" by code_simp
  have ve: "dump_form_ready_on empty_form
     = \<lparr> schoolId = None, schoolText = None,
         consentChecked = Some True, ariaInvalidCount = 0 \<rparr>" by code_simp
  have vl: "consentChecked (dump_form_ready_on (late_consent_pages 0)) = None" by code_simp
  have ga: "gate_ok (dump_form_ready_on acme_form)" unfolding va by code_simp
  have ge: "\<not> gate_ok (dump_form_ready_on empty_form)" unfolding ve by code_simp
  have lit: "gate_ok acme_snapshot" "\<not> gate_ok no_org_snapshot" by code_simp+
  have wa: "dump_form_ready ?wa = snapshot_of_pages (\<lambda>k. acme_form)"
    and we: "dump_form_ready ?we = snapshot_of_pages (\<lambda>k. empty_form)"
    and wl: "dump_form_ready ?wl = snapshot_of_pages late_consent_pages"
    by (simp_all add: dump_world_def)
  have ba: "before_gate ?wa student = Inr (Dict (dump_form_ready_on acme_form), ?t)"
    unfolding va by code_simp
  have be: "before_gate ?we student = Inr (Dict (dump_form_ready_on empty_form), ?t)"
    unfolding ve by code_simp
  have bl: "before_gate ?wl student
              = Inr (Dict (dump_form_ready_on (late_consent_pages 0)), ?t)"
    by code_simp
  have quiet: "outcome w' tr' E_human_delay = None"
    if "human_delay w' = (\<lambda>k. None)" for w' tr'
    using that by simp
  have hd: "human_delay ?wa = (\<lambda>k. None)" "human_delay ?we = (\<lambda>k. None)"
    "human_delay ?wl = (\<lambda>k. None)"
    by (simp_all add: dump_world_def calm_world_def)
  from submit_gate_decides[OF wa ba, of acme_form] obtain d tr1 where
    a: "d = dump_form_ready_on acme_form \<or> d = dump_form_ready_on acme_form"
       "gate_ok d \<and> outcome ?wa tr1 E_human_delay = None
          \<longrightarrow> E_click_submit \<in> set (snd (run ?wa student))"
    by blast
  then have ra: "E_click_submit \<in> set (snd (run ?wa student))"
    using ga quiet[OF hd(1)] by auto
  from submit_gate_decides[OF we be, of empty_form] obtain d' tr1' where
    e: "d' = dump_form_ready_on empty_form \<or> d' = dump_form_ready_on empty_form"
       "\<not> gate_ok d' \<longrightarrow>
            \<not> success (fst (run ?we student)) \<and> form_values (fst (run ?we student)) = Some (Dict d')
            \<and> E_click_submit \<notin> set (snd (run ?we student))"
    by blast
  then have re: "\<not> success (fst (run ?we student))"
    "E_click_submit \<notin> set (snd (run ?we student))"
    using ge by auto
  have rl: "E_click_submit \<in> set (snd (run ?wl student))" by code_simp
  from va ga ra ve ge re vl rl lit show ?thesis by (intro conjI)
qed

text \<open>
  The claim as first stated fails on snapshots that \<open>dump_form_ready\<close> builds. On the
  page whose combobox carries the one-character identifier U+001F, the id of the snapshot
  is that non-empty string (the page script's \<open>trim\<close> leaves it in place), consent is
  checked and nothing is invalid; yet the gate strips the id with Python's \<open>strip\<close>,
  finds it blank, and the run ends without a submit. And in the run whose first snapshot
  reads consent as \<open>None\<close> and whose second snapshot reads it as checked, the first
  snapshot does not meet the three conditions, yet the gate passes on the second and the
  submit control is invoked.
\<close>

theorem stray_id_fails_gate:
  "schoolId (dump_form_ready_on stray_id_form) = Some [CHR 0x1F]
   \<and> schoolText (dump_form_ready_on stray_id_form) = None
   \<and> consentChecked (dump_form_ready_on stray_id_form) = Some True
   \<and> ariaInvalidCount (dump_form_ready_on stray_id_form) = 0
   \<and> \<not> gate_ok (dump_form_ready_on stray_id_form)
   \<and> \<not> success (fst (run (dump_world (snapshot_of_pages (\<lambda>k. stray_id_form))) student))
   \<and> E_click_submit
        \<notin> set (snd (run (dump_world (snapshot_of_pages (\<lambda>k. stray_id_form))) student))
   \<and> consentChecked (dump_form_ready_on (late_consent_pages 0)) = None
   \<and> \<not> gate_ok (dump_form_ready_on (late_consent_pages 0))
   \<and> E_click_submit
        \<in> set (snd (run (dump_world (snapshot_of_pages late_consent_pages)) student))"
  by code_simp


lemma remediation_raises_keeps:
  "remediation_raises w tr \<Longrightarrow> \<exists>tr1. remediate w tr v0 = (Dict v0, v0, tr1)"
  by (auto simp: remediation_raises_def remediate_def simp del: do_seq.simps
           split: prod.splits option.splits sum.splits)

lemma redump_not_dict_loses:
  "redump_not_dict w tr \<Longrightarrow> \<exists>tr1. remediate w tr v0 = (No_dict, v0, tr1)"
  by (auto simp: redump_not_dict_def remediate_def simp del: do_seq.simps
           split: prod.splits option.splits sum.splits)

lemma unconfirmed_fails: "consentChecked v \<noteq> Some True \<Longrightarrow> \<not> gate_ok v"
  by (simp add: gate_ok_iff)

text \<open>
  C9, as amended. Let the run reach the gate with \<open>data\<close>. \<open>data\<close> is not a dictionary
  exactly when the dump function is absent, raised, or returned something that is not a
  dictionary; the gate is then skipped without a single call and the run goes on to the
  submit stage unguarded (the submit control is invoked unless the pacing delay before it
  raises). With a snapshot whose consent is unconfirmed: when the second dump of the
  remediation pass is not a dictionary, the exception raised while the failure result is
  built is swallowed and the run goes on to the submit stage; when a call of the
  remediation pass raises, the exception is swallowed, the gate is judged on the first
  snapshot, and the run returns a failure without invoking the submit control.
\<close>

theorem gate_skipped_or_swallowed:
  assumes "before_gate w p = Inr (data, tr)"
  shows "(data = No_dict \<longleftrightarrow>
            (case dump_form_ready w of
               None \<Rightarrow> True
             | Some dump \<Rightarrow> (case dump 0 of Inl e \<Rightarrow> True | Inr d \<Rightarrow> d = No_dict)))
       \<and> (data = No_dict \<longrightarrow> run w p = submit_and_poll w tr)
       \<and> (data = No_dict \<and> outcome w tr E_human_delay = None
            \<longrightarrow> E_click_submit \<in> set (snd (run w p)))
       \<and> (data = Dict v0 \<and> consentChecked v0 \<noteq> Some True \<and> redump_not_dict w tr
            \<longrightarrow> (\<exists>tr1. prefix tr tr1 \<and>
                   run w p = submit_and_poll w
                               (tr1 @ [E_dump_page ''pre_submit_validation_failed''])))
       \<and> (data = Dict v0 \<and> consentChecked v0 \<noteq> Some True \<and> remediation_raises w tr
            \<longrightarrow> \<not> success (fst (run w p)) \<and> form_values (fst (run w p)) = Some (Dict v0)
                \<and> E_click_submit \<notin> set (snd (run w p)))"
proof -
  have c1: "data = No_dict \<longleftrightarrow>
            (case dump_form_ready w of
               None \<Rightarrow> True
             | Some dump \<Rightarrow> (case dump 0 of Inl e \<Rightarrow> True | Inr d \<Rightarrow> d = No_dict))"
    using before_gate_data(1)[OF assms] by (auto split: option.splits sum.splits)
  have c2: "run w p = submit_and_poll w tr" if "data = No_dict"
    using that by (simp add: run_from_gate[OF assms] submit_gate_def)
  have c3: "E_click_submit \<in> set (snd (run w p))"
    if "data = No_dict" "outcome w tr E_human_delay = None"
    using c2[OF that(1)] submit_and_poll_submits[OF that(2)] by simp
  have c4: "\<exists>tr1. prefix tr tr1 \<and>
                   run w p = submit_and_poll w
                               (tr1 @ [E_dump_page ''pre_submit_validation_failed''])"
    if "data = Dict v0" "consentChecked v0 \<noteq> Some True" "redump_not_dict w tr"
  proof -
    from redump_not_dict_loses[OF that(3), of v0] obtain tr1 where
      r: "remediate w tr v0 = (No_dict, v0, tr1)" by blast
    then have j: "judged w tr v0 = (No_dict, v0, tr1)" using that(2) by (simp add: judged_def)
    have "run w p = submit_and_poll w (tr1 @ [E_dump_page ''pre_submit_validation_failed''])"
      using that(1) j unconfirmed_fails[OF that(2)]
      by (simp add: run_from_gate[OF assms] submit_gate_def)
    then show ?thesis using remediate_facts(1)[OF r] by blast
  qed
  have c5: "\<not> success (fst (run w p)) \<and> form_values (fst (run w p)) = Some (Dict v0)
                \<and> E_click_submit \<notin> set (snd (run w p))"
    if "data = Dict v0" "consentChecked v0 \<noteq> Some True" "remediation_raises w tr"
  proof -
    from remediation_raises_keeps[OF that(3), of v0] obtain tr1 where
      r: "remediate w tr v0 = (Dict v0, v0, tr1)" by blast
    then have j: "judged w tr v0 = (Dict v0, v0, tr1)" using that(2) by (simp add: judged_def)
    have ns: "E_click_submit \<notin> set tr1"
      using remediate_facts(2)[OF r] before_gate_no_submit[OF assms] by simp
    show ?thesis
      using that(1) j unconfirmed_fails[OF that(2)] ns
      by (simp add: run_from_gate[OF assms] submit_gate_def)
  qed
  show ?thesis using c1 c2 c3 c4 c5 by blast
qed

theorem gate_skipped_or_swallowed_witness:
  "before_gate (dump_world None) student = Inr (No_dict, filled_trace)
   \<and> dump_form_ready (dump_world None) = None
   \<and> E_click_submit \<in> set (snd (run (dump_world None) student))
   \<and> before_gate redump_none_world student
       = Inr (Dict unticked_snapshot, filled_trace @ [E_dump_form_ready])
   \<and> redump_not_dict redump_none_world (filled_trace @ [E_dump_form_ready])
   \<and> E_click_submit \<in> set (snd (run redump_none_world student))
   \<and> before_gate recheck_fails_world student
       = Inr (Dict unticked_snapshot, filled_trace @ [E_dump_form_ready])
   \<and> remediation_raises recheck_fails_world (filled_trace @ [E_dump_form_ready])
   \<and> \<not> success (fst (run recheck_fails_world student))
   \<and> E_click_submit \<notin> set (snd (run recheck_fails_world student))"
proof -
  let ?t = "filled_trace @ [E_dump_form_ready]"
  have a1: "before_gate (dump_world None) student = Inr (No_dict, filled_trace)"
    by code_simp
  have b1: "outcome (dump_world None) filled_trace E_human_delay = None"
    by (simp add: dump_world_def calm_world_def)
  have d1: "dump_form_ready (dump_world None) = None" by (simp add: dump_world_def)
  have a2: "before_gate redump_none_world student = Inr (Dict unticked_snapshot, ?t)"
    by code_simp
  have b2: "redump_not_dict redump_none_world ?t" by code_simp
  have c2: "consentChecked unticked_snapshot \<noteq> Some True" by (simp add: unticked_snapshot_def)
  have e2: "E_click_submit \<in> set (snd (run redump_none_world student))" by code_simp
  have a3: "before_gate recheck_fails_world student = Inr (Dict unticked_snapshot, ?t)"
    by code_simp
  have b3: "remediation_raises recheck_fails_world ?t" by code_simp
  from gate_skipped_or_swallowed[OF a1] b1
  have r1: "E_click_submit \<in> set (snd (run (dump_world None) student))" by blast
  from gate_skipped_or_swallowed[OF a3, of unticked_snapshot] b3 c2
  have r3: "\<not> success (fst (run recheck_fails_world student))"
    "E_click_submit \<notin> set (snd (run recheck_fails_world student))" by blast+
  show ?thesis using a1 d1 r1 a2 b2 e2 a3 b3 r3 by blast
qed

text \<open>
  The claim as first stated fails when the second checkbox pass raises inside the gate: the
  exception is swallowed, but the run is aborted and the submit control is not invoked.
\<close>

theorem recheck_exception_blocks_submit:
  "before_gate recheck_fails_world student
     = Inr (Dict unticked_snapshot, filled_trace @ [E_dump_form_ready])
   \<and> check_all_visible_checkboxes recheck_fails_world 1 = Some (PyException ''frame detached'')
   \<and> run recheck_fails_world student =
       (\<lparr> success = False,
          message = Msg_pre_submit_failed True False True (Some []) (Some ''Acme University'')
                      (Some False) 0,
          form_values = Some (Dict unticked_snapshot),
          status_info = Some (PDict [(''currentStep'', initial_step)]) \<rparr>,
        filled_trace @ [E_dump_form_ready, E_human_delay, E_check_checkboxes,
                        E_dump_page ''pre_submit_validation_failed''])
   \<and> E_click_submit \<notin> set (snd (run recheck_fails_world student))"
  by code_simp


section \<open>Single use of the verifier\<close>

lemma do_precheck_has_run: "has_run (snd (verifier_do_precheck b out v)) = has_run v"
  by (auto simp: verifier_do_precheck_def ensure_api_service_def apply_server_locale_def Let_def
           split: sum.splits option.splits prod.splits pyval.splits)

lemma verifier_after_has_run: "has_run (verifier_after b rs v k) = has_run v"
  by (induction k) (simp_all add: do_precheck_has_run)

lemma verify_sets_flag: "has_run (snd (verify s d a v))"
  by (auto simp: verify_def verify_body_def Let_def verifier_after_has_run
           split: prod.splits sum.splits option.splits)

lemma verify_returns: "\<exists>r. fst (verify s d a v) = Inr r"
  by (auto simp: verify_def split: prod.splits sum.splits)

lemma verify_used:
  "has_run v \<Longrightarrow> verify s d a v =
     (Inr \<lparr> success = False, message = Msg_exception Single_use, form_values = None,
            status_info = None \<rparr>, v)"
  by (simp add: verify_def verify_body_def)

text \<open>
  C3, as amended. Whatever the first \<open>verify\<close> call was given and however it ended, a
  second call on the same instance fails: it returns the failure result whose message is
  the single-use text. That result is returned, not raised; \<open>verify\<close> hands every
  exception of its body back as a failure result, this one included.
\<close>

theorem second_verify_returns_failure:
  "fst (verify s' d' a' (snd (verify s d a v)))
     = Inr \<lparr> success = False, message = Msg_exception Single_use, form_values = None,
             status_info = None \<rparr>
   \<and> (\<exists>r. fst (verify s d a v) = Inr r)"
  using verify_used[OF verify_sets_flag, of s' d' a' s d a v] verify_returns[of s d a v]
  by simp

theorem second_verify_returns_failure_witness:
  "fst (verify pending_site ''110565'' only_email
         (snd (verify pending_site ''110565'' no_email fresh_verifier)))
     = Inr \<lparr> success = False, message = Msg_exception Single_use, form_values = None,
             status_info = None \<rparr>"
  using second_verify_returns_failure
          [of pending_site "''110565''" only_email pending_site "''110565''" no_email
              fresh_verifier]
  by simp

text \<open>
  The claim as first stated fails: after a first call that succeeded, and after one that
  failed for want of an email, the second call returns a result; nothing is raised.
\<close>

theorem second_verify_not_raised:
  "fst (verify pending_site ''110565'' only_email fresh_verifier)
     = Inr \<lparr> success = True, message = Msg_precheck_step (PStr ''pending''),
             form_values = None,
             status_info = Some (PDict [(''currentStep'', PStr ''pending''),
                                        (''precheck'', PDict [(''currentStep'', PStr ''pending'')])]) \<rparr>
   \<and> fst (verify pending_site ''110565'' only_email
            (snd (verify pending_site ''110565'' only_email fresh_verifier)))
       = Inr \<lparr> success = False, message = Msg_exception Single_use, form_values = None,
               status_info = None \<rparr>
   \<and> fst (verify pending_site ''110565'' only_email
            (snd (verify pending_site ''110565'' no_email fresh_verifier)))
       = Inr \<lparr> success = False, message = Msg_exception Single_use, form_values = None,
               status_info = None \<rparr>
   \<and> \<not> isl (fst (verify pending_site ''110565'' only_email
                   (snd (verify pending_site ''110565'' only_email fresh_verifier))))"
  by code_simp


section \<open>The locale follows the server\<close>

lemma precheck_updates:
  assumes "verifier_do_precheck b out v = (res, v')"
    and "ensure_api_service b v = Inr va" and "out = Inr (PDict d, code)"
    and "server_locale d = Some l" and "l \<noteq> []" and "l \<noteq> cur_locale v"
  shows "cur_locale v' = l \<and> accept_language v' = override_accept_language l
              \<and> outbound_accept_language v' = Some (override_accept_language l)"
proof -
  have va: "cur_locale va = cur_locale v" "api_accept_language va \<noteq> None"
    using assms(2) by (auto simp: ensure_api_service_def split: option.splits)
  have "v' = apply_server_locale d va"
    using assms(1,2,3) by (simp add: verifier_do_precheck_def svc_precheck_def)
  then show ?thesis
    using assms(4,5,6) va
    by (auto simp: apply_server_locale_def outbound_accept_language_def override_accept_language_def
          Let_def split: option.splits)
qed

lemma precheck_changes_only_on_declared:
  assumes "verifier_do_precheck b out v = (res, v')"
    and "cur_locale v' \<noteq> cur_locale v \<or> accept_language v' \<noteq> accept_language v"
  shows "\<exists>d code. out = Inr (PDict d, code) \<and> server_locale d = Some (cur_locale v')
                  \<and> cur_locale v' \<noteq> [] \<and> cur_locale v' \<noteq> cur_locale v
                  \<and> accept_language v' = override_accept_language (cur_locale v')"
  using assms
  by (auto simp: verifier_do_precheck_def svc_precheck_def ensure_api_service_def
        apply_server_locale_def Let_def
        split: option.splits sum.splits prod.splits pyval.splits if_splits)

text \<open>
  C8, as amended. At the \<open>k\<close>-th precheck of a run: when the status request yields a
  dictionary whose \<open>locale\<close> entry is a string that is non-empty after stripping and
  differs from the current locale, the verifier's locale becomes that string and the
  Accept-Language value of the verifier and of the client (the header of every later
  request) is rebuilt from it. The locale or the Accept-Language value changes at a
  precheck only in this way: a failed precheck, or a payload with no locale, a blank one
  or the current one, leaves both as they are. The locale is not a ratchet: it follows
  whatever a later payload declares.
\<close>

theorem locale_follows_server:
  "(ensure_api_service b (verifier_after b rs v k) = Inr va \<and> rs k = Inr (PDict d, code)
      \<and> server_locale d = Some l \<and> l \<noteq> [] \<and> l \<noteq> cur_locale (verifier_after b rs v k)
     \<longrightarrow> cur_locale (verifier_after b rs v (Suc k)) = l
         \<and> accept_language (verifier_after b rs v (Suc k)) = override_accept_language l
         \<and> outbound_accept_language (verifier_after b rs v (Suc k))
             = Some (override_accept_language l))
   \<and> (cur_locale (verifier_after b rs v (Suc k)) \<noteq> cur_locale (verifier_after b rs v k)
      \<or> accept_language (verifier_after b rs v (Suc k))
           \<noteq> accept_language (verifier_after b rs v k)
     \<longrightarrow> (\<exists>d' code'. rs k = Inr (PDict d', code')
            \<and> server_locale d' = Some (cur_locale (verifier_after b rs v (Suc k)))
            \<and> cur_locale (verifier_after b rs v (Suc k)) \<noteq> []
            \<and> cur_locale (verifier_after b rs v (Suc k)) \<noteq> cur_locale (verifier_after b rs v k)))"
proof -
  let ?v0 = "verifier_after b rs v k"
  let ?v1 = "verifier_after b rs v (Suc k)"
  have e: "verifier_do_precheck b (rs k) ?v0 = (fst (verifier_do_precheck b (rs k) ?v0), ?v1)"
    by simp
  show ?thesis
    using precheck_updates[OF e, of va d code l] precheck_changes_only_on_declared[OF e]
    by blast
qed

theorem locale_follows_server_witness:
  "ensure_api_service None (verifier_after None swinging_responses fresh_verifier 0)
     = Inr (fresh_verifier\<lparr> api_accept_language := Some ''en-US,en;q=0.9'' \<rparr>)
   \<and> swinging_responses 0 = Inr (locale_payload ''fr-FR'', 200)
   \<and> server_locale [(''currentStep'', PStr ''collectStudentPersonalInfo''),
                      (''locale'', PStr ''fr-FR'')] = Some ''fr-FR''
   \<and> ''fr-FR'' \<noteq> cur_locale (verifier_after None swinging_responses fresh_verifier 0)
   \<and> cur_locale (verifier_after None swinging_responses fresh_verifier (Suc 0)) = ''fr-FR''
   \<and> outbound_accept_language (verifier_after None swinging_responses fresh_verifier (Suc 0))
       = Some ''fr-FR,fr;q=0.9,en-US;q=0.8,en;q=0.7''"
proof -
  have a: "ensure_api_service None (verifier_after None swinging_responses fresh_verifier 0)
     = Inr (fresh_verifier\<lparr> api_accept_language := Some ''en-US,en;q=0.9'' \<rparr>)"
    by code_simp
  have b: "swinging_responses 0 = Inr (PDict [(''currentStep'', PStr ''collectStudentPersonalInfo''),
                      (''locale'', PStr ''fr-FR'')], 200)"
    by (simp add: swinging_responses_def locale_payload_def)
  have c: "server_locale [(''currentStep'', PStr ''collectStudentPersonalInfo''),
                      (''locale'', PStr ''fr-FR'')] = Some ''fr-FR''"
    by code_simp
  have d: "''fr-FR'' \<noteq> cur_locale (verifier_after None swinging_responses fresh_verifier 0)"
    by (simp add: fresh_verifier_def)
  have o: "override_accept_language ''fr-FR'' = ''fr-FR,fr;q=0.9,en-US;q=0.8,en;q=0.7''"
    by code_simp
  from locale_follows_server[of None swinging_responses fresh_verifier 0
        "fresh_verifier\<lparr> api_accept_language := Some ''en-US,en;q=0.9'' \<rparr>"
        "[(''currentStep'', PStr ''collectStudentPersonalInfo''), (''locale'', PStr ''fr-FR'')]"
        200 "''fr-FR''"] a b c d
  have "cur_locale (verifier_after None swinging_responses fresh_verifier (Suc 0)) = ''fr-FR''
      \<and> outbound_accept_language (verifier_after None swinging_responses fresh_verifier (Suc 0))
       = Some (override_accept_language ''fr-FR'')"
    by blast
  then show ?thesis using a b c d o by (simp add: locale_payload_def)
qed

text \<open>
  The claim as first stated fails: with payloads declaring \<open>fr-FR\<close> and then \<open>en-US\<close>,
  the locale goes from \<open>en-US\<close> to \<open>fr-FR\<close> and back to \<open>en-US\<close> within one run.
\<close>

theorem locale_swings_back:
  "cur_locale fresh_verifier = ''en-US''
   \<and> cur_locale (verifier_after None swinging_responses fresh_verifier 1) = ''fr-FR''
   \<and> cur_locale (verifier_after None swinging_responses fresh_verifier 2) = ''en-US''
   \<and> cur_locale (snd (verify swinging_site ''110565'' only_email fresh_verifier)) = ''en-US''"
  by code_simp


section \<open>Selection rounds of the organization selector\<close>

lemma try_seq_take: "\<exists>k. snd (try_seq pg as h) = h @ take k as \<and> (as \<noteq> [] \<longrightarrow> 0 < k) \<and> k \<le> length as"
proof (induction as arbitrary: h)
  case Nil
  then show ?case by simp
next
  case (Cons a as)
  show ?case
  proof (cases "raises pg h a")
    case True
    then show ?thesis by (intro exI[of _ 1]) simp
  next
    case False
    from Cons.IH[of "h @ [a]"] obtain k where
      "snd (try_seq pg as (h @ [a])) = (h @ [a]) @ take k as" "k \<le> length as" by blast
    then show ?thesis using False by (intro exI[of _ "Suc k"]) simp
  qed
qed

lemma keyboard_strategy_shape:
  "\<exists>ys. keyboard_strategy pg h = h @ arrow_down # ys
        \<and> set ys \<subseteq> {U_sleep 150, U_press ''Enter''}"
proof -
  from try_seq_take[of pg "[arrow_down, U_sleep 150, U_press ''Enter'']" h]
  obtain k where k: "keyboard_strategy pg h = h @ take k [arrow_down, U_sleep 150, U_press ''Enter'']"
    "0 < k" by (auto simp: keyboard_strategy_def)
  then obtain j where "k = Suc j" by (cases k) auto
  then have "keyboard_strategy pg h = h @ arrow_down # take j [U_sleep 150, U_press ''Enter'']"
    using k by simp
  moreover have "set (take j [U_sleep 150, U_press ''Enter'']) \<subseteq> {U_sleep 150, U_press ''Enter''}"
    using set_take_subset[of j "[U_sleep 150, U_press ''Enter'']"] by auto
  ultimately show ?thesis by blast
qed

lemma pointer_strategy_shape:
  "\<exists>ys. pointer_strategy pg m h = h @ role_option_click m # ys
        \<and> set ys \<subseteq> {div_option_click m}"
  by (auto simp: pointer_strategy_def Let_def)

lemma marks_distinct:
  "arrow_down \<noteq> role_option_click m" "div_option_click m \<noteq> role_option_click m"
  "div_option_click m \<noteq> arrow_down" "U_sleep k \<noteq> arrow_down" "U_sleep k \<noteq> role_option_click m"
  "U_press ''Enter'' \<noteq> arrow_down" "U_press ''Enter'' \<noteq> role_option_click m"
  by (simp_all add: arrow_down_def role_option_click_def div_option_click_def)


text \<open>The events one round adds.\<close>

lemma round_first_half:
  "\<exists>ks. keyboard_strategy pg h @ [U_sleep 250] = h @ arrow_down # ks @ [U_sleep 250]
        \<and> set ks \<subseteq> {U_sleep 150, U_press ''Enter''}"
  using keyboard_strategy_shape[of pg h] by auto

lemma round_second_half:
  "\<exists>ps. pointer_strategy pg m h @ [U_sleep 350] = h @ role_option_click m # ps @ [U_sleep 350]
        \<and> set ps \<subseteq> {div_option_click m}"
  using pointer_strategy_shape[of pg m h] by auto

lemma round_marks_append: "round_marks m (xs @ ys) = round_marks m xs @ round_marks m ys"
  by (simp add: round_marks_def)

lemma round_marks_kb:
  "set ks \<subseteq> {U_sleep 150, U_press ''Enter''} \<Longrightarrow>
   round_marks m (arrow_down # ks @ [U_sleep 250]) = [arrow_down]"
proof -
  assume a: "set ks \<subseteq> {U_sleep 150, U_press ''Enter''}"
  have "\<forall>e \<in> set ks. e \<noteq> arrow_down \<and> e \<noteq> role_option_click m"
    using a by (auto simp: arrow_down_def role_option_click_def)
  then have "filter (\<lambda>e. e = arrow_down \<or> e = role_option_click m) ks = []"
    by (auto simp: filter_empty_conv)
  then show ?thesis using marks_distinct by (simp add: round_marks_def)
qed

lemma round_marks_pt:
  "set ps \<subseteq> {div_option_click m} \<Longrightarrow>
   round_marks m (role_option_click m # ps @ [U_sleep 350]) = [role_option_click m]"
proof -
  assume a: "set ps \<subseteq> {div_option_click m}"
  have "\<forall>e \<in> set ps. e \<noteq> arrow_down \<and> e \<noteq> role_option_click m"
    using a by (auto simp: arrow_down_def role_option_click_def div_option_click_def)
  then have "filter (\<lambda>e. e = arrow_down \<or> e = role_option_click m) ps = []"
    by (auto simp: filter_empty_conv)
  then show ?thesis using marks_distinct by (simp add: round_marks_def)
qed

text \<open>How the loop ends: the three ways out of one round.\<close>

lemma select_rounds_cases:
  obtains
    (first) "check_org_id_filled pg (keyboard_strategy pg h @ [U_sleep 250]) \<noteq> None"
      "select_rounds pg m (Suc n) h = keyboard_strategy pg h @ [U_sleep 250]"
  | (second) "check_org_id_filled pg (keyboard_strategy pg h @ [U_sleep 250]) = None"
      "check_org_id_filled pg
         (pointer_strategy pg m (keyboard_strategy pg h @ [U_sleep 250]) @ [U_sleep 350]) \<noteq> None"
      "select_rounds pg m (Suc n) h =
         pointer_strategy pg m (keyboard_strategy pg h @ [U_sleep 250]) @ [U_sleep 350]"
  | (more) "check_org_id_filled pg (keyboard_strategy pg h @ [U_sleep 250]) = None"
      "check_org_id_filled pg
         (pointer_strategy pg m (keyboard_strategy pg h @ [U_sleep 250]) @ [U_sleep 350]) = None"
      "select_rounds pg m (Suc n) h =
         select_rounds pg m n
           (pointer_strategy pg m (keyboard_strategy pg h @ [U_sleep 250]) @ [U_sleep 350])"
  by (cases "check_org_id_filled pg (keyboard_strategy pg h @ [U_sleep 250]) = None";
      cases "check_org_id_filled pg
         (pointer_strategy pg m (keyboard_strategy pg h @ [U_sleep 250]) @ [U_sleep 350]) = None")
     (auto simp: Let_def)

declare select_rounds.simps [simp del]

lemma typed_terms_append: "typed_terms (xs @ zs) = typed_terms xs @ typed_terms zs"
  by (induction xs rule: typed_terms.induct) auto

lemma round_events:
  obtains kb pt where
    "keyboard_strategy pg h @ [U_sleep 250] = h @ kb"
    "pointer_strategy pg m (h @ kb) @ [U_sleep 350] = h @ kb @ pt"
    "round_marks m kb = [arrow_down]" "round_marks m pt = [role_option_click m]"
    "typed_terms kb = []" "typed_terms pt = []"
    "kb \<noteq> []" "last kb = U_sleep 250" "U_sleep 250 \<notin> set (butlast kb)"
    "U_sleep 350 \<notin> set (butlast kb)"
    "pt \<noteq> []" "last pt = U_sleep 350" "U_sleep 250 \<notin> set (butlast pt)"
    "U_sleep 350 \<notin> set (butlast pt)"
proof -
  obtain ks where ks: "keyboard_strategy pg h @ [U_sleep 250] = h @ arrow_down # ks @ [U_sleep 250]"
    "set ks \<subseteq> {U_sleep 150, U_press ''Enter''}"
    using round_first_half[of pg h] by blast
  define kb where "kb = arrow_down # ks @ [U_sleep 250]"
  obtain ps where ps: "pointer_strategy pg m (h @ kb) @ [U_sleep 350]
                        = (h @ kb) @ role_option_click m # ps @ [U_sleep 350]"
    "set ps \<subseteq> {div_option_click m}"
    using round_second_half[of pg m "h @ kb"] by blast
  define pt where "pt = role_option_click m # ps @ [U_sleep 350]"
  have tks: "typed_terms ks = []" using ks(2) by (induction ks) auto
  have tps: "typed_terms ps = []" using ps(2) by (induction ps) (auto simp: div_option_click_def)
  have bk: "butlast kb = arrow_down # ks" by (simp add: kb_def butlast_append)
  have bp: "butlast pt = role_option_click m # ps" by (simp add: pt_def butlast_append)
  show ?thesis
  proof (rule that[of kb pt])
    show "keyboard_strategy pg h @ [U_sleep 250] = h @ kb" using ks(1) by (simp add: kb_def)
    show "pointer_strategy pg m (h @ kb) @ [U_sleep 350] = h @ kb @ pt"
      using ps(1) by (simp add: pt_def)
    show "round_marks m kb = [arrow_down]" unfolding kb_def by (rule round_marks_kb[OF ks(2)])
    show "round_marks m pt = [role_option_click m]"
      unfolding pt_def by (rule round_marks_pt[OF ps(2)])
    show "typed_terms kb = []"
      using tks by (simp add: kb_def arrow_down_def typed_terms_append)
    show "typed_terms pt = []"
      using tps by (simp add: pt_def role_option_click_def typed_terms_append)
    show "kb \<noteq> []" "pt \<noteq> []" by (simp_all add: kb_def pt_def)
    show "last kb = U_sleep 250" "last pt = U_sleep 350" by (simp_all add: kb_def pt_def)
    show "U_sleep 250 \<notin> set (butlast kb)" "U_sleep 350 \<notin> set (butlast kb)"
      using ks(2) by (auto simp: bk arrow_down_def)
    show "U_sleep 250 \<notin> set (butlast pt)" "U_sleep 350 \<notin> set (butlast pt)"
      using ps(2) by (auto simp: bp role_option_click_def div_option_click_def)
  qed
qed

lemma select_rounds_marks:
  "\<exists>ys k. select_rounds pg m n h = h @ ys \<and> k \<le> 2 * n
         \<and> round_marks m ys = take k (concat (replicate n [arrow_down, role_option_click m]))
         \<and> typed_terms ys = []"
proof (induction n arbitrary: h)
  case 0
  show ?case
    by (intro exI[of _ "[]"] exI[of _ 0]) (simp add: round_marks_def select_rounds.simps)
next
  case (Suc n)
  obtain kb pt where r:
    "keyboard_strategy pg h @ [U_sleep 250] = h @ kb"
    "pointer_strategy pg m (h @ kb) @ [U_sleep 350] = h @ kb @ pt"
    "round_marks m kb = [arrow_down]" "round_marks m pt = [role_option_click m]"
    "typed_terms kb = []" "typed_terms pt = []"
    by (rule round_events[of pg h m]) blast
  show ?case
  proof (cases rule: select_rounds_cases[of pg h m n])
    case first
    have "select_rounds pg m (Suc n) h = h @ kb" using first(2) r(1) by simp
    then show ?thesis using r(3,5)
      by (intro exI[of _ kb] exI[of _ 1]) simp
  next
    case second
    have "select_rounds pg m (Suc n) h = h @ (kb @ pt)"
      using second(3) r(1,2) by simp
    then show ?thesis using r(3,4,5,6)
      by (intro exI[of _ "kb @ pt"] exI[of _ 2]) (simp add: round_marks_append typed_terms_append)
  next
    case more
    from Suc.IH[of "h @ kb @ pt"] obtain ys k where
      ih: "select_rounds pg m n (h @ kb @ pt) = (h @ kb @ pt) @ ys" "k \<le> 2 * n"
        "round_marks m ys = take k (concat (replicate n [arrow_down, role_option_click m]))"
        "typed_terms ys = []" by blast
    have "select_rounds pg m (Suc n) h = h @ (kb @ pt @ ys)"
      using more(3) ih(1) r(1,2) by simp
    moreover have "round_marks m (kb @ pt @ ys)
        = take (Suc (Suc k)) (concat (replicate (Suc n) [arrow_down, role_option_click m]))"
      using r(3,4) ih(3) by (simp add: round_marks_append)
    moreover have "typed_terms (kb @ pt @ ys) = []"
      using r(5,6) ih(4) by (simp add: typed_terms_append)
    ultimately show ?thesis using ih(2)
      by (intro exI[of _ "kb @ pt @ ys"] exI[of _ "Suc (Suc k)"]) simp
  qed
qed

text \<open>No action follows a check that found the id.\<close>

lemma select_rounds_stops:
  assumes "select_rounds pg m n h = h @ ys @ zs" and "ys \<noteq> []" and "zs \<noteq> []"
    and "last ys = U_sleep 250 \<or> last ys = U_sleep 350"
  shows "check_org_id_filled pg (h @ ys) = None"
  using assms
proof (induction n arbitrary: h ys)
  case 0
  then show ?case by (simp add: select_rounds.simps)
next
  case (Suc n)
  obtain kb pt where r:
    "keyboard_strategy pg h @ [U_sleep 250] = h @ kb"
    "pointer_strategy pg m (h @ kb) @ [U_sleep 350] = h @ kb @ pt"
    "kb \<noteq> []" "last kb = U_sleep 250" "U_sleep 250 \<notin> set (butlast kb)"
    "U_sleep 350 \<notin> set (butlast kb)"
    "pt \<noteq> []" "last pt = U_sleep 350" "U_sleep 250 \<notin> set (butlast pt)"
    "U_sleep 350 \<notin> set (butlast pt)"
    by (rule round_events[of pg h m]) blast
  have inner: False if "xs = ys @ zs'" "zs' \<noteq> []"
      "U_sleep 250 \<notin> set (butlast xs)" "U_sleep 350 \<notin> set (butlast xs)" for xs zs'
  proof -
    have "last ys \<in> set (butlast xs)"
      using that(1,2) Suc.prems(2) by (simp add: butlast_append)
    then show False using that(3,4) Suc.prems(4) by auto
  qed
  show ?case
  proof (cases rule: select_rounds_cases[of pg h m n])
    case first
    then have "kb = ys @ zs" using Suc.prems(1) r(1) by simp
    then show ?thesis using inner[of kb zs] Suc.prems(3) r(5,6) by blast
  next
    case second
    then have e: "kb @ pt = ys @ zs" using Suc.prems(1) r(1,2) by simp
    then consider (a) us where "kb = ys @ us" "us \<noteq> []"
      | (b) "ys = kb"
      | (c) us where "ys = kb @ us" "us \<noteq> []" "pt = us @ zs"
      by (auto simp: append_eq_append_conv2)
    then show ?thesis
    proof cases
      case a
      then show ?thesis using inner[of kb us] r(5,6) by blast
    next
      case b
      then show ?thesis using second(1) r(1) by simp
    next
      case c
      have "last us = last ys" using c by simp
      then have "last us \<in> set (butlast pt)"
        using c Suc.prems(3) by (simp add: butlast_append)
      then show ?thesis using Suc.prems(4) \<open>last us = last ys\<close> r(9,10) by auto
    qed
  next
    case more
    obtain ws where ws: "select_rounds pg m n (h @ kb @ pt) = (h @ kb @ pt) @ ws"
      using select_rounds_marks[of pg m n "h @ kb @ pt"] by blast
    have e: "kb @ pt @ ws = ys @ zs" using Suc.prems(1) more(3) r(1,2) ws by simp
    then consider (a) us where "kb = ys @ us" "us \<noteq> []"
      | (b) "ys = kb"
      | (c) us vs where "ys = kb @ us" "us \<noteq> []" "pt = us @ vs" "vs \<noteq> []"
      | (d) "ys = kb @ pt"
      | (e) us where "ys = kb @ pt @ us" "us \<noteq> []" "ws = us @ zs"
      by (auto simp: append_eq_append_conv2)
    then show ?thesis
    proof cases
      case a
      then show ?thesis using inner[of kb us] r(5,6) by blast
    next
      case b
      then show ?thesis using more(1) r(1) by simp
    next
      case c
      have "last us = last ys" using c by simp
      then have "last us \<in> set (butlast pt)"
        using c by (simp add: butlast_append)
      then show ?thesis using Suc.prems(4) \<open>last us = last ys\<close> r(9,10) by auto
    next
      case d
      then show ?thesis using more(2) r(1,2) by simp
    next
      case e
      have "select_rounds pg m n (h @ kb @ pt) = (h @ kb @ pt) @ us @ zs"
        using ws e by simp
      from Suc.IH[OF this e(2) Suc.prems(3)] Suc.prems(4) e(1,2)
      show ?thesis by simp
    qed
  qed
qed


lemma select_rounds_ends:
  "\<exists>ys k. select_rounds pg m n h = h @ ys \<and> k \<le> 2 * n
         \<and> round_marks m ys = take k (concat (replicate n [arrow_down, role_option_click m]))
         \<and> (check_org_id_filled pg (h @ ys) \<noteq> None \<or> k = 2 * n)"
proof (induction n arbitrary: h)
  case 0
  show ?case
    by (intro exI[of _ "[]"] exI[of _ 0]) (simp add: round_marks_def select_rounds.simps)
next
  case (Suc n)
  obtain kb pt where r:
    "keyboard_strategy pg h @ [U_sleep 250] = h @ kb"
    "pointer_strategy pg m (h @ kb) @ [U_sleep 350] = h @ kb @ pt"
    "round_marks m kb = [arrow_down]" "round_marks m pt = [role_option_click m]"
    by (rule round_events[of pg h m]) blast
  show ?case
  proof (cases rule: select_rounds_cases[of pg h m n])
    case first
    have "select_rounds pg m (Suc n) h = h @ kb" using first(2) r(1) by simp
    then show ?thesis using r(3) first(1) r(1)
      by (intro exI[of _ kb] exI[of _ 1]) simp
  next
    case second
    have "select_rounds pg m (Suc n) h = h @ (kb @ pt)"
      using second(3) r(1,2) by simp
    then show ?thesis using r(3,4) second(2) r(1,2)
      by (intro exI[of _ "kb @ pt"] exI[of _ 2]) (simp add: round_marks_append)
  next
    case more
    from Suc.IH[of "h @ kb @ pt"] obtain ys k where
      ih: "select_rounds pg m n (h @ kb @ pt) = (h @ kb @ pt) @ ys" "k \<le> 2 * n"
        "round_marks m ys = take k (concat (replicate n [arrow_down, role_option_click m]))"
        "check_org_id_filled pg ((h @ kb @ pt) @ ys) \<noteq> None \<or> k = 2 * n" by blast
    have "select_rounds pg m (Suc n) h = h @ (kb @ pt @ ys)"
      using more(3) ih(1) r(1,2) by simp
    moreover have "round_marks m (kb @ pt @ ys)
        = take (Suc (Suc k)) (concat (replicate (Suc n) [arrow_down, role_option_click m]))"
      using r(3,4) ih(3) by (simp add: round_marks_append)
    ultimately show ?thesis using ih(2,4)
      by (intro exI[of _ "kb @ pt @ ys"] exI[of _ "Suc (Suc k)"]) auto
  qed
qed

text \<open>The simulated document with a late id.\<close>

lemma late_page_reads:
  "raises (late_id_page n idv) h a = False"
  "fresh_org_input (late_id_page n idv) h"
  "options_count (late_id_page n idv) h = Some 1"
  "aria_controls (late_id_page n idv) h = Probe_value None"
  "js_hit (late_id_page n idv) h sel"
  "selected_card (late_id_page n idv) h = Probe_absent"
  "hidden_org_id (late_id_page n idv) h
     = Probe_value (Some (if n \<le> clicks_so_far h then idv else []))"
  by (simp_all add: late_id_page_def raises_def fresh_org_input_def split: ui_event.splits)

lemma late_page_filled:
  assumes "py_strip idv \<noteq> []" and "5 < length idv"
  shows "check_org_id_filled (late_id_page n idv) h
           = (if n \<le> clicks_so_far h then Some (py_strip idv) else None)"
  using assms by (auto simp: check_org_id_filled_def late_id_page_def)

lemma late_page_try_seq: "try_seq (late_id_page n idv) as h = (False, h @ as)"
  by (induction as arbitrary: h) (simp_all add: late_page_reads)

lemma clicks_full_round: "clicks_so_far (h @ full_round) = Suc (clicks_so_far h)"
  by (simp add: clicks_so_far_def full_round_def role_option_click_def arrow_down_def)

lemma clicks_half_round:
  "clicks_so_far (h @ [arrow_down, U_sleep 150, U_press ''Enter'', U_sleep 250]) = clicks_so_far h"
  by (simp add: clicks_so_far_def role_option_click_def arrow_down_def)

lemma late_round:
  assumes "py_strip idv \<noteq> []" and "5 < length idv" and "clicks_so_far h < n"
  shows "select_rounds (late_id_page n idv) ''#sid-college-name-menu'' (Suc k) h
           = (if Suc (clicks_so_far h) = n then h @ full_round
              else select_rounds (late_id_page n idv) ''#sid-college-name-menu'' k
                     (h @ full_round))"
proof -
  let ?pg = "late_id_page n idv"
  have kb: "keyboard_strategy ?pg h @ [U_sleep 250]
              = h @ [arrow_down, U_sleep 150, U_press ''Enter'', U_sleep 250]"
    by (simp add: keyboard_strategy_def late_page_try_seq del: try_seq.simps)
  have pt: "pointer_strategy ?pg ''#sid-college-name-menu''
              (h @ [arrow_down, U_sleep 150, U_press ''Enter'', U_sleep 250]) @ [U_sleep 350]
            = h @ full_round"
    by (simp add: pointer_strategy_def late_page_reads Let_def full_round_def)
  have "select_rounds (late_id_page n idv) ''#sid-college-name-menu'' (Suc k) h
          = (if check_org_id_filled ?pg
                  (h @ [arrow_down, U_sleep 150, U_press ''Enter'', U_sleep 250]) \<noteq> None
             then h @ [arrow_down, U_sleep 150, U_press ''Enter'', U_sleep 250]
             else if check_org_id_filled ?pg (h @ full_round) \<noteq> None then h @ full_round
             else select_rounds ?pg ''#sid-college-name-menu'' k (h @ full_round))"
    by (simp only: select_rounds.simps Let_def kb pt)
  also have "\<dots> = (if Suc (clicks_so_far h) = n then h @ full_round
              else select_rounds (late_id_page n idv) ''#sid-college-name-menu'' k
                     (h @ full_round))"
    using assms(3)
    by (simp add: late_page_filled[OF assms(1,2)] clicks_half_round clicks_full_round)
  finally show ?thesis .
qed

lemma late_three_rounds:
  assumes "py_strip idv \<noteq> []" and "5 < length idv" and "clicks_so_far h = 0"
  shows "select_rounds (late_id_page 3 idv) ''#sid-college-name-menu'' 4 h
           = h @ full_round @ full_round @ full_round"
proof -
  let ?sel = "select_rounds (late_id_page 3 idv) ''#sid-college-name-menu''"
  have 4: "(4::nat) = Suc (Suc (Suc (Suc 0)))" by simp
  have c1: "clicks_so_far (h @ full_round) = 1"
    using assms(3) by (simp add: clicks_full_round)
  have c2: "clicks_so_far ((h @ full_round) @ full_round) = 2"
    using c1 clicks_full_round[of "h @ full_round"] by simp
  have r1: "?sel (Suc (Suc (Suc (Suc 0)))) h = ?sel (Suc (Suc (Suc 0))) (h @ full_round)"
    using late_round[OF assms(1,2), of h 3 "Suc (Suc (Suc 0))"] assms(3) by simp
  have r2: "?sel (Suc (Suc (Suc 0))) (h @ full_round)
              = ?sel (Suc (Suc 0)) ((h @ full_round) @ full_round)"
    using late_round[OF assms(1,2), of "h @ full_round" 3 "Suc (Suc 0)"] c1 by simp
  have r3: "?sel (Suc (Suc 0)) ((h @ full_round) @ full_round)
              = ((h @ full_round) @ full_round) @ full_round"
    using late_round[OF assms(1,2), of "(h @ full_round) @ full_round" 3 "Suc 0"] c2 by simp
  show ?thesis unfolding 4 r1 r2 r3 by simp
qed

lemma late_id_confirmed:
  assumes "py_strip idv \<noteq> []" and "5 < length idv"
  shows "fst (try_term (late_id_page 3 idv) raw_name term []) = Term_done
       \<and> count_list (snd (try_term (late_id_page 3 idv) raw_name term [])) arrow_down = 3"
proof -
  let ?pg = "late_id_page 3 idv"
  let ?m = "''#sid-college-name-menu''"
  define wait where "wait = U_wait_selector (valid_option_sel ?m)"
  define h2 where "h2 = [U_focus, U_fill_empty, U_press ''Control+A'', U_press ''Backspace'',
              U_sleep 100, U_type term]"
  define h3 where "h3 = h2 @ [wait]"
  define h4 where "h4 = (h3 @ full_round @ full_round @ full_round) @ [U_press ''Tab'']"
  have c0: "clicks_so_far h3 = 0"
    by (simp add: h3_def h2_def wait_def clicks_so_far_def role_option_click_def)
  have sel: "select_rounds ?pg ?m 4 h3 = h3 @ full_round @ full_round @ full_round"
    by (rule late_three_rounds[OF assms c0])
  have c4: "clicks_so_far h4 = 3"
    using c0 clicks_full_round[of h3] clicks_full_round[of "h3 @ full_round"]
      clicks_full_round[of "(h3 @ full_round) @ full_round"]
    by (simp add: h4_def clicks_so_far_def role_option_click_def)
  have filled: "check_org_id_filled ?pg h4 = Some (py_strip idv)"
    using c4 late_page_filled[OF assms, of 3 h4] by simp
  have poll: "poll_id ?pg 8 h4 = h4"
    using filled by (simp add: eval_nat_numeral)
  have strict: "check_org_selected_strict ?pg h4 = Hidden_org_id"
    using assms(1) c4 late_page_reads(6,7)[of 3 idv h4]
    by (simp add: check_org_selected_strict_def probe_text_def Let_def)
  have tab: "snd (try_seq ?pg [U_press ''Tab''] (select_rounds ?pg ?m 4 h3)) = h4"
    unfolding sel late_page_try_seq h4_def by simp
  have conf: "confirm_selection ?pg raw_name term ?m 1 h3 = (Term_done, h4)"
    unfolding confirm_selection_def Let_def
    by (simp add: tab poll strict filled del: try_seq.simps)
  have ms: "menu_selector_of (Probe_value None) = ?m"
    by (simp add: menu_selector_of_def)
  have ts: "try_seq ?pg [U_focus, U_fill_empty, U_press ''Control+A'', U_press ''Backspace'',
                          U_sleep 100, U_type term] [] = (False, h2)"
    unfolding late_page_try_seq h2_def by simp
  have "try_term ?pg raw_name term [] = (Term_done, h4)"
    unfolding try_term_def Let_def ts
    using conf
    by (simp add: late_page_reads ms wait_def[symmetric] h3_def[symmetric] del: try_seq.simps)
  moreover have "count_list h4 arrow_down = 3"
    by (simp add: h4_def h3_def h2_def wait_def full_round_def arrow_down_def
          role_option_click_def)
  ultimately show ?thesis by simp
qed

text \<open>The marks are left by the rounds only.\<close>

lemma round_marks_nil_iff:
  "round_marks m xs = [] \<longleftrightarrow> arrow_down \<notin> set xs \<and> role_option_click m \<notin> set xs"
  by (auto simp: round_marks_def filter_empty_conv)

lemma round_marks_take_nil: "round_marks m xs = [] \<Longrightarrow> round_marks m (take k xs) = []"
  unfolding round_marks_nil_iff using set_take_subset[of k xs] by blast

lemma try_seq_unmarked:
  "round_marks m as = [] \<Longrightarrow> round_marks m (snd (try_seq pg as h)) = round_marks m h"
  using try_seq_take[of pg as h] round_marks_take_nil[of m as]
  by (auto simp: round_marks_append)

lemma poll_id_unmarked: "round_marks m (poll_id pg n h) = round_marks m h"
  by (induction n arbitrary: h)
     (simp_all add: round_marks_append, simp add: round_marks_def arrow_down_def role_option_click_def)

lemma unmarked_events:
  "round_marks m [U_press ''Tab''] = []"
  "round_marks m [U_fill_empty] = []"
  "round_marks m [U_focus] = []"
  "round_marks m [U_sleep k] = []"
  "round_marks m [U_press ''Control+A'', U_press ''Backspace''] = []"
  "round_marks m [U_force_type full_text, U_sleep 250, U_press ''Enter''] = []"
  "round_marks m [U_dispatch ''input'', U_dispatch ''change'', U_dispatch ''blur''] = []"
  by (simp_all add: round_marks_def arrow_down_def role_option_click_def)

lemma force_select_unmarked:
  "round_marks m (snd (force_select_org_by_exact_text pg full_text h)) = round_marks m h"
  by (simp add: force_select_org_by_exact_text_def Let_def round_marks_append try_seq_unmarked
        unmarked_events del: try_seq.simps)

lemma select_rounds_marked:
  "\<exists>k. k \<le> 2 * n
     \<and> round_marks m (select_rounds pg m n h)
         = round_marks m h @ take k (concat (replicate n [arrow_down, role_option_click m]))"
  using select_rounds_marks[of pg m n h] by (auto simp: round_marks_append)

lemma confirm_selection_marks:
  "\<exists>k. k \<le> 8
     \<and> round_marks m (snd (confirm_selection pg raw_name term m c h))
         = round_marks m h @ take k (concat (replicate 4 [arrow_down, role_option_click m]))"
proof -
  define h4 where "h4 = (if c > 0 then snd (try_seq pg [U_press ''Tab''] (select_rounds pg m 4 h))
                         else h)"
  have "\<exists>k. k \<le> 8 \<and> round_marks m h4
          = round_marks m h @ take k (concat (replicate 4 [arrow_down, role_option_click m]))"
  proof (cases "c > 0")
    case True
    from select_rounds_marked[of 4 m pg h] obtain k where
      "k \<le> 8" "round_marks m (select_rounds pg m 4 h)
         = round_marks m h @ take k (concat (replicate 4 [arrow_down, role_option_click m]))"
      by auto
    then show ?thesis using True
      by (intro exI[of _ k]) (simp add: h4_def try_seq_unmarked unmarked_events del: try_seq.simps)
  next
    case False
    then show ?thesis by (intro exI[of _ 0]) (simp add: h4_def)
  qed
  moreover have "round_marks m (snd (confirm_selection pg raw_name term m c h)) = round_marks m h4"
    unfolding confirm_selection_def Let_def h4_def[symmetric]
    by (simp add: poll_id_unmarked force_select_unmarked split: org_outcome.splits)
  ultimately show ?thesis by simp
qed

lemma count_list_filter: "P c \<Longrightarrow> count_list (filter P xs) c = count_list xs c"
  by (induction xs) auto

lemma clicks_of_marks:
  "count_list xs (role_option_click m) = count_list (round_marks m xs) (role_option_click m)"
  by (simp add: round_marks_def count_list_filter)

lemma select_rounds_by_clicks:
  assumes H: "\<And>h'. (check_org_id_filled pg h' \<noteq> None) = (n \<le> count_list h' (role_option_click m))"
  shows "count_list h (role_option_click m) < n \<Longrightarrow> n \<le> count_list h (role_option_click m) + b \<Longrightarrow>
         \<exists>ys. select_rounds pg m b h = h @ ys
            \<and> round_marks m ys
                = concat (replicate (n - count_list h (role_option_click m))
                                    [arrow_down, role_option_click m])
            \<and> count_list (h @ ys) (role_option_click m) = n"
proof (induction b arbitrary: h)
  case 0
  then show ?case by simp
next
  case (Suc b)
  let ?c = "role_option_click m"
  obtain kb pt where r:
    "keyboard_strategy pg h @ [U_sleep 250] = h @ kb"
    "pointer_strategy pg m (h @ kb) @ [U_sleep 350] = h @ kb @ pt"
    "round_marks m kb = [arrow_down]" "round_marks m pt = [role_option_click m]"
    by (rule round_events[of pg h m]) blast
  have ckb: "count_list kb ?c = 0"
    using clicks_of_marks[of kb m] r(3) marks_distinct(1)[of m] by simp
  have cpt: "count_list pt ?c = 1"
    using clicks_of_marks[of pt m] r(4) by simp
  have nf1: "check_org_id_filled pg (h @ kb) = None"
    using H[of "h @ kb"] Suc.prems(1) ckb by simp
  show ?case
  proof (cases "Suc (count_list h ?c) = n")
    case True
    have f2: "check_org_id_filled pg (h @ kb @ pt) \<noteq> None"
      using H[of "h @ kb @ pt"] True ckb cpt by simp
    have "select_rounds pg m (Suc b) h = h @ (kb @ pt)"
      using nf1 f2 r(1,2) by (simp add: select_rounds.simps Let_def)
    moreover have "round_marks m (kb @ pt) = [arrow_down, ?c]"
      using r(3,4) by (simp add: round_marks_append)
    moreover have "n - count_list h ?c = 1" using True by simp
    moreover have "count_list (h @ kb @ pt) ?c = n" using True ckb cpt by simp
    ultimately show ?thesis by (intro exI[of _ "kb @ pt"]) simp
  next
    case False
    then have lt: "Suc (count_list h ?c) < n" using Suc.prems(1) by simp
    have nf2: "check_org_id_filled pg (h @ kb @ pt) = None"
      using H[of "h @ kb @ pt"] lt ckb cpt by simp
    have step: "select_rounds pg m (Suc b) h = select_rounds pg m b (h @ kb @ pt)"
      using nf1 nf2 r(1,2) by (simp add: select_rounds.simps Let_def)
    have c2: "count_list (h @ kb @ pt) ?c = Suc (count_list h ?c)" using ckb cpt by simp
    have "count_list (h @ kb @ pt) ?c < n" using lt c2 by simp
    moreover have "n \<le> count_list (h @ kb @ pt) ?c + b" using Suc.prems(2) c2 by simp
    ultimately obtain ys where ys: "select_rounds pg m b (h @ kb @ pt) = (h @ kb @ pt) @ ys"
      "round_marks m ys = concat (replicate (n - count_list (h @ kb @ pt) ?c) [arrow_down, ?c])"
      "count_list ((h @ kb @ pt) @ ys) ?c = n"
      using Suc.IH[of "h @ kb @ pt"] by blast
    have "n - count_list h ?c = Suc (n - count_list (h @ kb @ pt) ?c)" using lt c2 by simp
    then have "round_marks m (kb @ pt @ ys)
        = concat (replicate (n - count_list h ?c) [arrow_down, ?c])"
      using r(3,4) ys(2) by (simp add: round_marks_append)
    then show ?thesis using step ys(1,3) by (intro exI[of _ "kb @ pt @ ys"]) simp
  qed
qed

lemma confirm_selection_result:
  "fst (confirm_selection pg raw_name term m c h)
     = (if check_org_selected_strict pg
             (poll_id pg 8 (if 0 < c then snd (try_seq pg [U_press ''Tab''] (select_rounds pg m 4 h))
                            else h)) = Not_selected
        then Term_next else Term_done)"
  by (simp add: confirm_selection_def Let_def split: org_outcome.splits del: try_seq.simps)

lemma confirmed_by_clicks:
  assumes H: "\<And>h'. (check_org_id_filled pg h' \<noteq> None) = (n \<le> count_list h' (role_option_click m))"
    and S: "\<And>h'. check_org_id_filled pg h' \<noteq> None \<Longrightarrow> probe_text (hidden_org_id pg h') \<noteq> []"
    and c: "0 < c" and n: "1 \<le> n" "n \<le> 4" and h: "count_list h (role_option_click m) = 0"
  shows "\<exists>ys. confirm_selection pg raw_name term m c h = (Term_done, h @ ys @ [U_press ''Tab''])
            \<and> round_marks m ys = concat (replicate n [arrow_down, role_option_click m])"
proof -
  let ?c = "role_option_click m"
  have "count_list h ?c < n" "n \<le> count_list h ?c + 4" using n h by simp_all
  from select_rounds_by_clicks[of pg n m, OF H this] obtain ys where
    ys: "select_rounds pg m 4 h = h @ ys"
        "round_marks m ys = concat (replicate n [arrow_down, ?c])"
        "count_list (h @ ys) ?c = n"
    using h by auto
  define h4 where "h4 = (h @ ys) @ [U_press ''Tab'']"
  have tab: "snd (try_seq pg [U_press ''Tab''] (h @ ys)) = h4"
    by (simp add: h4_def)
  have "count_list h4 ?c = n" using ys(3) by (simp add: h4_def role_option_click_def)
  then have filled: "check_org_id_filled pg h4 \<noteq> None" using H[of h4] by simp
  then have poll: "poll_id pg 8 h4 = h4" by (simp add: eval_nat_numeral)
  have "probe_text (hidden_org_id pg h4) \<noteq> []" using S[OF filled] .
  then have strict: "check_org_selected_strict pg h4 \<noteq> Not_selected"
    by (simp add: check_org_selected_strict_def Let_def)
  have "confirm_selection pg raw_name term m c h = (Term_done, h4)"
    unfolding confirm_selection_def Let_def
    using c strict filled
    by (auto simp: ys(1) tab poll split: org_outcome.splits simp del: try_seq.simps)
  then show ?thesis using ys(2) by (intro exI[of _ ys]) (simp add: h4_def)
qed

text \<open>
  C6, as amended. \<open>select_rounds pg m 4 h\<close> is the round loop run once the options of a
  term have been counted and there is at least one. Reading its log by the two marks of a
  round, the arrow-down of the keyboard strategy and the synthetic click on the first
  \<open>[role='option']\<close> node of the pointer strategy: the marks are a beginning of
  arrow-down, click, arrow-down, click, ... of at most 4 rounds, so the strategies
  alternate and there is no fifth round; the loop ends with the id found or with all 4
  rounds done; and at every check after which the loop went on (the points after the
  sleeps of 0.25 s and 0.35 s) the id had not been found, so nothing follows a check that
  finds it. What stops the loop is \<open>_check_org_id_filled\<close>: a candidate field whose
  \<open>value\<close> attribute is non-blank and longer than 5 characters, or a non-empty
  \<open>data-selected-id\<close>. The whole confirmation of a term adds no other mark, and the term is
  confirmed exactly when, after the rounds, the tab-out and the wait, the strict check
  finds a name card with text or a non-blank \<open>organizationId\<close> or \<open>schoolId\<close> value;
  otherwise the protocol goes on to the next term. On every document where the id check
  turns positive exactly with the \<open>n\<close>-th synthetic click (\<open>n\<close> from 1 to 4) and the
  strict check can read what the id check found, the term is confirmed after exactly \<open>n\<close>
  rounds and the tab-out.
\<close>

theorem selection_rounds_contract:
  "(\<exists>ys k. select_rounds pg m 4 h = h @ ys \<and> k \<le> 8
       \<and> round_marks m ys = take k (concat (replicate 4 [arrow_down, role_option_click m]))
       \<and> (check_org_id_filled pg (h @ ys) \<noteq> None \<or> k = 8)
       \<and> (\<forall>q r. ys = q @ r \<and> q \<noteq> [] \<and> r \<noteq> []
                 \<and> (last q = U_sleep 250 \<or> last q = U_sleep 350)
              \<longrightarrow> check_org_id_filled pg (h @ q) = None))
   \<and> (\<exists>j. j \<le> 8
         \<and> round_marks m (snd (confirm_selection pg raw_name term m c h))
             = round_marks m h @ take j (concat (replicate 4 [arrow_down, role_option_click m])))
   \<and> fst (confirm_selection pg raw_name term m c h)
       = (if check_org_selected_strict pg
               (poll_id pg 8 (if 0 < c
                              then snd (try_seq pg [U_press ''Tab''] (select_rounds pg m 4 h))
                              else h)) = Not_selected
          then Term_next else Term_done)
   \<and> (0 < c \<and> 1 \<le> n \<and> n \<le> 4 \<and> count_list h (role_option_click m) = 0
        \<and> (\<forall>h'. (check_org_id_filled pg h' \<noteq> None)
                   = (n \<le> count_list h' (role_option_click m)))
        \<and> (\<forall>h'. check_org_id_filled pg h' \<noteq> None \<longrightarrow> probe_text (hidden_org_id pg h') \<noteq> [])
      \<longrightarrow> (\<exists>ys. confirm_selection pg raw_name term m c h
                    = (Term_done, h @ ys @ [U_press ''Tab''])
              \<and> round_marks m ys = concat (replicate n [arrow_down, role_option_click m])))"
proof -
  from select_rounds_ends[of pg m 4 h] obtain ys k where
    e: "select_rounds pg m 4 h = h @ ys" "k \<le> 8"
       "round_marks m ys = take k (concat (replicate 4 [arrow_down, role_option_click m]))"
       "check_org_id_filled pg (h @ ys) \<noteq> None \<or> k = 8"
    by auto
  have stop: "check_org_id_filled pg (h @ q) = None"
    if "ys = q @ r" "q \<noteq> []" "r \<noteq> []" "last q = U_sleep 250 \<or> last q = U_sleep 350" for q r
  proof -
    have "select_rounds pg m 4 h = h @ q @ r" using e(1) that(1) by simp
    then show ?thesis using that(2,3,4) by (rule select_rounds_stops)
  qed
  have first: "\<exists>ys k. select_rounds pg m 4 h = h @ ys \<and> k \<le> 8
       \<and> round_marks m ys = take k (concat (replicate 4 [arrow_down, role_option_click m]))
       \<and> (check_org_id_filled pg (h @ ys) \<noteq> None \<or> k = 8)
       \<and> (\<forall>q r. ys = q @ r \<and> q \<noteq> [] \<and> r \<noteq> []
                 \<and> (last q = U_sleep 250 \<or> last q = U_sleep 350)
              \<longrightarrow> check_org_id_filled pg (h @ q) = None)"
    using e stop by blast
  have fourth: "0 < c \<and> 1 \<le> n \<and> n \<le> 4 \<and> count_list h (role_option_click m) = 0
        \<and> (\<forall>h'. (check_org_id_filled pg h' \<noteq> None)
                   = (n \<le> count_list h' (role_option_click m)))
        \<and> (\<forall>h'. check_org_id_filled pg h' \<noteq> None \<longrightarrow> probe_text (hidden_org_id pg h') \<noteq> [])
      \<longrightarrow> (\<exists>ys. confirm_selection pg raw_name term m c h
                    = (Term_done, h @ ys @ [U_press ''Tab''])
              \<and> round_marks m ys = concat (replicate n [arrow_down, role_option_click m]))"
  proof (intro impI, elim conjE)
    assume a: "0 < c" "1 \<le> n" "n \<le> 4" "count_list h (role_option_click m) = 0"
      and H: "\<forall>h'. (check_org_id_filled pg h' \<noteq> None)
                   = (n \<le> count_list h' (role_option_click m))"
      and S: "\<forall>h'. check_org_id_filled pg h' \<noteq> None \<longrightarrow> probe_text (hidden_org_id pg h') \<noteq> []"
    show "\<exists>ys. confirm_selection pg raw_name term m c h
                    = (Term_done, h @ ys @ [U_press ''Tab''])
              \<and> round_marks m ys = concat (replicate n [arrow_down, role_option_click m])"
      by (rule confirmed_by_clicks[OF _ _ a]) (use H S in blast)+
  qed
  from first confirm_selection_marks[of m pg raw_name "term" c h]
    confirm_selection_result[of pg raw_name "term" m c h] fourth
  show ?thesis by (intro conjI)
qed

text \<open>
  The theorem at the document that fills \<open>110565\<close> into the \<open>organizationId\<close> field
  with the 3rd round: three whole rounds are logged, the check after the second still
  finds nothing, and the term is confirmed.
\<close>

theorem selection_rounds_contract_witness:
  "(0::nat) < 1 \<and> (1::nat) \<le> 3 \<and> (3::nat) \<le> 4
   \<and> count_list [] (role_option_click ''#sid-college-name-menu'') = 0
   \<and> confirm_selection (late_id_page 3 ''110565'') ''Acme University'' ''Acme University''
         ''#sid-college-name-menu'' 1 []
       = (Term_done, full_round @ full_round @ full_round @ [U_press ''Tab''])
   \<and> round_marks ''#sid-college-name-menu'' (full_round @ full_round @ full_round)
       = concat (replicate 3 [arrow_down, role_option_click ''#sid-college-name-menu''])
   \<and> check_org_id_filled (late_id_page 3 ''110565'') (full_round @ full_round) = None
   \<and> check_org_id_filled (late_id_page 3 ''110565'') (full_round @ full_round @ full_round)
       = Some ''110565''
   \<and> fst (try_term (late_id_page 3 ''110565'') ''Acme University'' ''Acme University'' [])
       = Term_done
   \<and> count_list (snd (try_term (late_id_page 3 ''110565'') ''Acme University''
                         ''Acme University'' [])) arrow_down = 3"
proof -
  let ?pg = "late_id_page 3 ''110565''"
  let ?m = "''#sid-college-name-menu''"
  have idv: "py_strip ''110565'' \<noteq> []" "5 < length ''110565''" by code_simp+
  have n: "(0::nat) < 1" "(1::nat) \<le> 3" "(3::nat) \<le> 4"
    "count_list [] (role_option_click ?m) = 0" by simp_all
  have H: "\<forall>h'. (check_org_id_filled ?pg h' \<noteq> None) = (3 \<le> count_list h' (role_option_click ?m))"
    by (simp add: late_page_filled[OF idv] clicks_so_far_def)
  have S: "\<forall>h'. check_org_id_filled ?pg h' \<noteq> None \<longrightarrow> probe_text (hidden_org_id ?pg h') \<noteq> []"
    using idv(1) by (simp add: late_page_filled[OF idv] late_page_reads(7) probe_text_def)
  from selection_rounds_contract[of ?pg ?m "[]" "''Acme University''" "''Acme University''" 1 3]
    n H S
  obtain ys where ys: "confirm_selection ?pg ''Acme University'' ''Acme University'' ?m 1 []
                    = (Term_done, [] @ ys @ [U_press ''Tab''])"
     "round_marks ?m ys = concat (replicate 3 [arrow_down, role_option_click ?m])"
    by blast
  have run: "confirm_selection ?pg ''Acme University'' ''Acme University'' ?m 1 []
       = (Term_done, full_round @ full_round @ full_round @ [U_press ''Tab''])"
    by code_simp
  from ys(1) run have "ys = full_round @ full_round @ full_round" by simp
  with ys(2) have marks: "round_marks ?m (full_round @ full_round @ full_round)
       = concat (replicate 3 [arrow_down, role_option_click ?m])" by simp
  have early: "check_org_id_filled ?pg (full_round @ full_round) = None"
    "check_org_id_filled ?pg (full_round @ full_round @ full_round) = Some ''110565''"
    by code_simp+
  have t: "fst (try_term ?pg ''Acme University'' ''Acme University'' []) = Term_done"
    "count_list (snd (try_term ?pg ''Acme University'' ''Acme University'' [])) arrow_down = 3"
    using late_id_confirmed[OF idv, of "''Acme University''" "''Acme University''"] by simp_all
  from n run marks early t show ?thesis by (intro conjI)
qed

text \<open>
  The claim as first stated fails twice. A hidden field populated with the 4 characters
  \<open>2565\<close> after the first round does not count for \<open>_check_org_id_filled\<close>, and the
  loop goes through all 4 rounds. And when the identifier is populated only with the 3rd
  round but outside the \<open>organizationId\<close> and \<open>schoolId\<close> fields (here in
  \<open>data-selected-id\<close>), the rounds stop after the 3rd, yet the strict check finds
  nothing and the term is not confirmed.
\<close>

theorem populated_id_is_not_enough:
  "hidden_org_id (late_id_page 1 ''2565'') full_round = Probe_value (Some ''2565'')
   \<and> check_org_id_filled (late_id_page 1 ''2565'') full_round = None
   \<and> select_rounds (late_id_page 1 ''2565'') ''#sid-college-name-menu'' 4 []
       = full_round @ full_round @ full_round @ full_round
   \<and> selected_id_attr (attr_id_page 3 ''110565'') (full_round @ full_round)
       = Probe_value None
   \<and> selected_id_attr (attr_id_page 3 ''110565'') (full_round @ full_round @ full_round)
       = Probe_value (Some ''110565'')
   \<and> select_rounds (attr_id_page 3 ''110565'') ''#sid-college-name-menu'' 4 []
       = full_round @ full_round @ full_round
   \<and> fst (try_term (attr_id_page 3 ''110565'') ''Acme University'' ''Acme University'' [])
       = Term_next
   \<and> count_list (snd (try_term (attr_id_page 3 ''110565'') ''Acme University''
                         ''Acme University'' [])) arrow_down = 3"
  by code_simp


section \<open>Search terms of the organization selector\<close>

lemma py_split_no_sep: "sep \<notin> set s \<Longrightarrow> py_split sep s = [s]"
  by (induction s) auto

lemma parts_need_hyphen: "1 < length (org_name_parts r) \<Longrightarrow> CHR ''-'' \<in> set r"
proof (rule ccontr)
  assume a: "1 < length (org_name_parts r)" and b: "CHR ''-'' \<notin> set r"
  from b have "py_split (CHR ''-'') r = [r]" by (rule py_split_no_sep)
  then show False using a by (simp add: org_name_parts_def split: if_splits)
qed

lemma first_occurrences_two: "first_occurrences [a, b] = (if b = a then [a] else [a, b])"
  by simp

lemma first_occurrences_three:
  "first_occurrences [a, b, c] =
     (if b = a then (if c = a then [a] else [a, c])
      else if c = a \<or> c = b then [a, b] else [a, b, c])"
  by simp

lemma build_two:
  "(if r \<noteq> [] \<and> r \<notin> set (if c \<noteq> [] \<and> c \<notin> set [] then [] @ [c] else [])
    then (if c \<noteq> [] \<and> c \<notin> set [] then [] @ [c] else []) @ [r]
    else (if c \<noteq> [] \<and> c \<notin> set [] then [] @ [c] else []))
   = filter (\<lambda>t. t \<noteq> []) (first_occurrences ([] @ [c, r]))"
  by (simp split: if_splits)

lemma build_three:
  "l \<noteq> [] \<Longrightarrow>
   (if r \<noteq> [] \<and> r \<notin> set (if c \<noteq> [] \<and> c \<notin> set [l] then [l] @ [c] else [l])
    then (if c \<noteq> [] \<and> c \<notin> set [l] then [l] @ [c] else [l]) @ [r]
    else (if c \<noteq> [] \<and> c \<notin> set [l] then [l] @ [c] else [l]))
   = filter (\<lambda>t. t \<noteq> []) (first_occurrences ([l] @ [c, r]))"
  by (simp split: if_splits)

lemma search_terms_spec:
  "search_terms n = filter (\<lambda>t. t \<noteq> []) (first_occurrences (ordered_candidates n))"
proof (cases "1 < length (org_name_parts (py_strip n))")
  case True
  then have "org_name_parts (py_strip n) \<noteq> []" by auto
  then have "last (org_name_parts (py_strip n)) \<in> set (org_name_parts (py_strip n))" by simp
  then have lp: "last (org_name_parts (py_strip n)) \<noteq> []" by (auto simp: org_name_parts_def)
  have h: "CHR ''-'' \<in> set (py_strip n)" using True by (rule parts_need_hyphen)
  have seg: "filter (\<lambda>p. p \<noteq> []) (map py_strip (py_split (CHR ''-'') (py_strip n)))
               = org_name_parts (py_strip n)"
    by (simp add: org_name_parts_def)
  show ?thesis
    unfolding search_terms_def ordered_candidates_def Let_def seg
    by (simp only: True h if_True build_three[OF lp])
next
  case False
  have seg: "filter (\<lambda>p. p \<noteq> []) (map py_strip (py_split (CHR ''-'') (py_strip n)))
               = org_name_parts (py_strip n)"
    by (simp add: org_name_parts_def)
  have t1: "(if CHR ''-'' \<in> set (py_strip n)
             then if 1 < length (org_name_parts (py_strip n))
                  then [last (org_name_parts (py_strip n))] else []
             else []) = []"
    using False by simp
  show ?thesis
    unfolding search_terms_def ordered_candidates_def Let_def seg t1
    by (simp only: False if_False build_two)
qed

lemma first_occurrences_distinct: "distinct (first_occurrences xs)"
proof (induction xs rule: first_occurrences.induct)
  case 1
  show ?case by simp
next
  case (2 x xs)
  have "set (first_occurrences ys) \<subseteq> set ys" for ys :: "'a list"
    by (induction ys rule: first_occurrences.induct) auto
  then have "x \<notin> set (first_occurrences (filter (\<lambda>y. y \<noteq> x) xs))" by fastforce
  then show ?case using 2 by simp
qed

lemma search_terms_distinct: "distinct (search_terms n)"
  unfolding search_terms_spec by (intro distinct_filter first_occurrences_distinct)


text \<open>Which search terms get typed.\<close>

lemma typed_terms_nil_iff: "typed_terms xs = [] \<longleftrightarrow> (\<forall>t. U_type t \<notin> set xs)"
  by (induction xs rule: typed_terms.induct) auto

lemma typed_terms_take_nil: "typed_terms xs = [] \<Longrightarrow> typed_terms (take k xs) = []"
  unfolding typed_terms_nil_iff using set_take_subset[of k xs] by blast

lemma try_seq_untyped:
  "typed_terms as = [] \<Longrightarrow> typed_terms (snd (try_seq pg as h)) = typed_terms h"
  using try_seq_take[of pg as h] typed_terms_take_nil[of as]
  by (auto simp: typed_terms_append)

lemma try_seq_raised_take:
  "try_seq pg as h = (True, h') \<Longrightarrow> \<exists>k. h' = h @ take k as \<and> k \<le> length as"
  "try_seq pg as h = (False, h') \<Longrightarrow> h' = h @ as"
proof (induction as arbitrary: h)
  case Nil
  { case 1 then show ?case by simp }
  { case 2 then show ?case by simp }
next
  case (Cons a as)
  { case 1
    show ?case
    proof (cases "raises pg h a")
      case True
      then show ?thesis using 1 by (intro exI[of _ 1]) auto
    next
      case False
      then have "try_seq pg as (h @ [a]) = (True, h')" using 1 by simp
      from Cons.IH(1)[OF this] obtain k where "h' = (h @ [a]) @ take k as" "k \<le> length as"
        by blast
      then show ?thesis by (intro exI[of _ "Suc k"]) simp
    qed }
  { case 2
    then show ?case using Cons.IH(2)[of "h @ [a]"] by (auto split: if_splits) }
qed


lemma poll_id_untyped: "typed_terms (poll_id pg n h) = typed_terms h"
  by (induction n arbitrary: h) (simp_all add: typed_terms_append)

lemma select_rounds_untyped: "typed_terms (select_rounds pg m n h) = typed_terms h"
  using select_rounds_marks[of pg m n h] by (auto simp: typed_terms_append)

lemma force_select_untyped:
  "typed_terms (snd (force_select_org_by_exact_text pg full_text h)) = typed_terms h"
  by (simp add: force_select_org_by_exact_text_def Let_def typed_terms_append try_seq_untyped
        del: try_seq.simps)

lemma confirm_selection_untyped:
  "typed_terms (snd (confirm_selection pg raw_name term m c h)) = typed_terms h"
  by (auto simp: confirm_selection_def Let_def poll_id_untyped select_rounds_untyped
        try_seq_untyped force_select_untyped simp del: try_seq.simps
        split: org_outcome.splits)

lemma try_term_typed:
  "typed_terms (snd (try_term pg raw_name term h)) = typed_terms h
   \<or> typed_terms (snd (try_term pg raw_name term h)) = typed_terms h @ [term]"
proof (cases "fresh_org_input pg h")
  case False
  then show ?thesis by (simp add: try_term_def)
next
  case True
  let ?as = "[U_focus, U_fill_empty, U_press ''Control+A'', U_press ''Backspace'',
              U_sleep 100, U_type term]"
  obtain b h2 where t: "try_seq pg ?as h = (b, h2)" by (cases "try_seq pg ?as h")
  show ?thesis
  proof (cases b)
    case True
    from True t have "try_seq pg ?as h = (True, h2)" by simp
    from try_seq_raised_take(1)[OF this] obtain k where
      k: "h2 = h @ take k ?as" by blast
    have "typed_terms (take k ?as) = [] \<or> typed_terms (take k ?as) = [term]"
    proof -
      consider "k = 0" | "k = 1" | "k = 2" | "k = 3" | "k = 4" | "k = 5" | "6 \<le> k" by linarith
      then show ?thesis by cases (simp_all add: eval_nat_numeral)
    qed
    then show ?thesis
      using True t k \<open>fresh_org_input pg h\<close>
      by (auto simp: try_term_def typed_terms_append simp del: try_seq.simps)
  next
    case False
    from False t have "try_seq pg ?as h = (False, h2)" by simp
    from try_seq_raised_take(2)[OF this] have h2: "h2 = h @ ?as" .
    have th2: "typed_terms h2 = typed_terms h @ [term]"
      by (simp add: h2 typed_terms_append)
    show ?thesis
      using False t th2 \<open>fresh_org_input pg h\<close>
      by (auto simp: try_term_def Let_def typed_terms_append confirm_selection_untyped
            simp del: try_seq.simps split: option.splits)
  qed
qed

lemma term_loop_typed:
  "\<exists>zs. typed_terms (snd (term_loop pg raw_name ts h)) = typed_terms h @ zs
        \<and> subseq zs (filter (\<lambda>t. 2 \<le> length t) ts)"
proof (induction ts arbitrary: h)
  case Nil
  then show ?case by simp
next
  case (Cons t ts)
  show ?case
  proof (cases "length t < 2")
    case True
    then show ?thesis using Cons.IH[of h] by (auto simp: not_le)
  next
    case False
    obtain res h' where tt: "try_term pg raw_name t h = (res, h')"
      by (cases "try_term pg raw_name t h")
    from try_term_typed[of pg raw_name t h] tt
    obtain us where us: "typed_terms h' = typed_terms h @ us" "us = [] \<or> us = [t]" by auto
    have one: "subseq us [t]" using us(2) by auto
    show ?thesis
    proof (cases res)
      case Term_done
      then have "snd (term_loop pg raw_name (t # ts) h) = h'" using False tt by simp
      moreover have "subseq us (t # filter (\<lambda>t. 2 \<le> length t) ts)"
        using us(2) by auto
      ultimately show ?thesis using us(1) False by auto
    next
      case Term_next
      then have e: "term_loop pg raw_name (t # ts) h = term_loop pg raw_name ts h'"
        using False tt by simp
      from Cons.IH[of h'] obtain zs where
        zs: "typed_terms (snd (term_loop pg raw_name ts h')) = typed_terms h' @ zs"
          "subseq zs (filter (\<lambda>t. 2 \<le> length t) ts)" by blast
      have "subseq (us @ zs) ([t] @ filter (\<lambda>t. 2 \<le> length t) ts)"
        using one zs(2) by (rule list_emb_append_mono)
      then show ?thesis using e zs(1) us(1) False
        by (intro exI[of _ "us @ zs"]) simp
    next
      case Term_raised
      let ?esc = "U_press ''Escape''"
      show ?thesis
      proof (cases "raises pg h' ?esc")
        case True
        then have "snd (term_loop pg raw_name (t # ts) h) = h' @ [?esc]"
          using False tt Term_raised by simp
        moreover have "subseq us (t # filter (\<lambda>t. 2 \<le> length t) ts)"
          using us(2) by auto
        ultimately show ?thesis using us(1) False
          by (intro exI[of _ us]) (simp add: typed_terms_append)
      next
        case nr: False
        then have e: "term_loop pg raw_name (t # ts) h
                       = term_loop pg raw_name ts (h' @ [?esc])"
          using False tt Term_raised by simp
        from Cons.IH[of "h' @ [?esc]"] obtain zs where
          zs: "typed_terms (snd (term_loop pg raw_name ts (h' @ [?esc])))
                 = typed_terms (h' @ [?esc]) @ zs"
            "subseq zs (filter (\<lambda>t. 2 \<le> length t) ts)" by blast
        have "subseq (us @ zs) ([t] @ filter (\<lambda>t. 2 \<le> length t) ts)"
          using one zs(2) by (rule list_emb_append_mono)
        then show ?thesis using e zs(1) us(1) False
          by (intro exI[of _ "us @ zs"]) (simp add: typed_terms_append)
      qed
    qed
  qed
qed

lemma wait_any_selector_untyped:
  "typed_terms (wait_any_selector pg sels h) = typed_terms h"
  by (induction sels arbitrary: h) (simp_all add: typed_terms_append)

lemma last_resort_untyped: "typed_terms (last_resort pg raw_name h) = typed_terms h"
  by (simp add: last_resort_def Let_def try_seq_untyped typed_terms_append del: try_seq.simps
        split: org_outcome.splits)

lemma fill_org_typed:
  "subseq (typed_terms (snd (fill_org_and_select_first_on pg sels ms n)))
          (filter (\<lambda>t. 2 \<le> length t) (search_terms n))"
proof -
  let ?w = "U_wait_selector ''#sid-college-name''"
  define h1 where "h1 = (if raises pg [] ?w then wait_any_selector pg sels [?w] else [?w])"
  have h1: "typed_terms h1 = []" by (simp add: h1_def wait_any_selector_untyped)
  obtain b h2 where tl: "term_loop pg (py_strip n) (search_terms n) h1 = (b, h2)"
    by (cases "term_loop pg (py_strip n) (search_terms n) h1")
  from term_loop_typed[of pg "py_strip n" "search_terms n" h1] tl h1
  have s2: "subseq (typed_terms h2) (filter (\<lambda>t. 2 \<le> length t) (search_terms n))" by auto
  have "typed_terms (snd (fill_org_and_select_first_on pg sels ms n)) = []
      \<or> typed_terms (snd (fill_org_and_select_first_on pg sels ms n)) = typed_terms h2"
    unfolding fill_org_and_select_first_on_def Let_def h1_def[symmetric] tl
    using h1
    by (cases b) (simp_all add: last_resort_untyped typed_terms_append)
  then show ?thesis using s2 by auto
qed

lemma search_terms_head:
  assumes "1 < length (org_name_parts (py_strip n))"
  shows "search_terms n \<noteq> [] \<and> hd (search_terms n) = last (org_name_parts (py_strip n))"
proof -
  from assms have "org_name_parts (py_strip n) \<noteq> []" by auto
  then have "last (org_name_parts (py_strip n)) \<in> set (org_name_parts (py_strip n))" by simp
  then have lp: "last (org_name_parts (py_strip n)) \<noteq> []" by (auto simp: org_name_parts_def)
  obtain rest where oc: "ordered_candidates n = last (org_name_parts (py_strip n)) # rest"
    using assms by (simp add: ordered_candidates_def org_name_parts_def Let_def)
  show ?thesis
    unfolding search_terms_spec oc using lp by simp
qed

text \<open>
  C7. For every organization name the list built by the source is the list the
  specification words: the trailing segment when the stripped name has more than one
  non-empty hyphen-separated segment, then the name with hyphens replaced by spaces, then
  the name, without the empty candidates and with each candidate kept at its first
  occurrence only. So the list has no repeated term, and it starts with the trailing
  segment when there is more than one segment. Whatever the page does, the terms typed
  into the input are, in order, among the terms of at least 2 characters: a shorter term
  is never typed.
\<close>

theorem search_terms_derivation:
  "search_terms n = filter (\<lambda>t. t \<noteq> []) (first_occurrences (ordered_candidates n))
   \<and> distinct (search_terms n)
   \<and> (1 < length (org_name_parts (py_strip n)) \<longrightarrow>
        search_terms n \<noteq> [] \<and> hd (search_terms n) = last (org_name_parts (py_strip n)))
   \<and> subseq (typed_terms (snd (fill_org_and_select_first_on pg sels ms n)))
            (filter (\<lambda>t. 2 \<le> length t) (search_terms n))"
  using search_terms_spec[of n] search_terms_distinct[of n] search_terms_head[of n]
    fill_org_typed[of pg sels ms n]
  by blast

text \<open>
  The theorem at a name with two segments; and a name whose trailing-segment list is
  \<open>A\<close>, \<open>A-\<close>, where only \<open>A-\<close> is typed.
\<close>

theorem search_terms_derivation_witness:
  "1 < length (org_name_parts (py_strip ''Acme University-North Campus''))
   \<and> hd (search_terms ''Acme University-North Campus'') = ''North Campus''
   \<and> search_terms ''Acme University-North Campus''
       = [''North Campus'', ''Acme University North Campus'', ''Acme University-North Campus'']
   \<and> search_terms ''A-'' = [''A'', ''A-'']
   \<and> typed_terms (snd (fill_org_and_select_first_on (late_id_page 9 ''110565'') [] 0 ''A-''))
       = [''A-'']"
proof -
  let ?n = "''Acme University-North Campus''"
  have p: "1 < length (org_name_parts (py_strip ?n))" by code_simp
  have l: "last (org_name_parts (py_strip ?n)) = ''North Campus''" by code_simp
  have s: "search_terms ?n
       = [''North Campus'', ''Acme University North Campus'', ''Acme University-North Campus'']"
    by code_simp
  have a: "search_terms ''A-'' = [''A'', ''A-'']" by code_simp
  have t: "typed_terms (snd (fill_org_and_select_first_on (late_id_page 9 ''110565'') [] 0 ''A-''))
       = [''A-'']" by code_simp
  from search_terms_derivation[of ?n] p
  have "hd (search_terms ?n) = last (org_name_parts (py_strip ?n))" by blast
  then have "hd (search_terms ?n) = ''North Campus''" by (simp only: l)
  with p s a t show ?thesis by blast
qed

end
